theory Spec2Isabelle
  imports Main "HOL-Library.AList"
begin

section \<open>The Eurostat JSON-stat decoder\<close>

text \<open>
  This theory embeds \<^verbatim>\<open>jsonstat_to_dataframe\<close> of
  \<^verbatim>\<open>Scipts/Eurostat_Search_Water_Statistics.py\<close>: the function that turns a JSON-stat
  cube (dimension identifiers, a size vector, per-dimension category indices and a dense or
  sparse value store) into one row per observation.

  Python values are modelled as follows.
  \<^item> Python integers are \<^typ>\<open>int\<close>; \<^verbatim>\<open>//\<close> and \<^verbatim>\<open>%\<close> are \<open>div\<close> and \<open>mod\<close>
    (both round towards minus infinity, the remainder takes the sign of the divisor).
  \<^item> A Python dictionary whose iteration order is observable is an association list in
    insertion order; storing under a key is \<^const>\<open>AList.update\<close> (an existing key keeps its
    place, a new key goes to the end). A dictionary that is only looked up is a map.
  \<^item> Every exception the function can raise on a typed cube is a value of \<open>py_error\<close>,
    and the function returns \<open>py_error + rows\<close>.

  The function is embedded twice: on cubes as values, and on a store of Python objects in
  which the cube and everything the function creates are objects behind references.
\<close>

subsection \<open>Data\<close>

datatype py_error = KeyError | IndexError | ZeroDivisionError

text \<open>
  \<^verbatim>\<open>cat.get("index", {})\<close>: the category object of a dimension either has an \<^verbatim>\<open>index\<close>
  (its items code \<open>\<mapsto>\<close> position, in insertion order) or has none.
\<close>

type_synonym category = "(string \<times> int) list option"

text \<open>
  \<^verbatim>\<open>js["value"]\<close> is a list (entries may be \<^verbatim>\<open>null\<close>), a dictionary keyed by strings
  (entries may be \<^verbatim>\<open>null\<close>), or any other JSON value.
\<close>

datatype 'v value_store =
    Dense "'v option list"
  | Sparse "string \<rightharpoonup> 'v option"
  | Other

text \<open>
  The four keys the function reads: \<^verbatim>\<open>id\<close>, \<^verbatim>\<open>size\<close>, \<^verbatim>\<open>dimension\<close>, \<^verbatim>\<open>value\<close>.
  The record takes them as present and of the expected kind; a document that lacks one raises
  \<open>KeyError\<close> at lines 67 to 71, a case that the embedding on a store (below) has.
\<close>

record 'v cube =
  js_id :: "string list"
  js_size :: "int list"
  js_dimension :: "string \<rightharpoonup> category"
  js_value :: "'v value_store"

text \<open>The response either wraps the cube under the key \<^verbatim>\<open>dataset\<close> or is the cube itself.\<close>

datatype 'v document = Dataset "'v cube" | Bare "'v cube"

text \<open>A cell of a row: the category code of a dimension, or the observation's value.\<close>

datatype 'v cell = Code string | Val 'v

type_synonym 'v row = "(string \<times> 'v cell) list"

subsection \<open>Python primitives\<close>

text \<open>\<^verbatim>\<open>xs[i]\<close>: a negative index counts from the end; out of range raises \<open>IndexError\<close>.\<close>

definition py_index :: "'a list \<Rightarrow> int \<Rightarrow> py_error + 'a" where
  "py_index xs i =
     (if 0 \<le> i \<and> i < int (length xs) then Inr (xs ! nat i)
      else if i < 0 \<and> - int (length xs) \<le> i then Inr (xs ! nat (int (length xs) + i))
      else Inl IndexError)"

text \<open>\<^verbatim>\<open>str(idx)\<close>: the decimal representation of an integer.\<close>

definition digit_char :: "nat \<Rightarrow> char" where
  "digit_char d = ''0123456789'' ! d"

function str_nat :: "nat \<Rightarrow> string" where
  "str_nat n = (if n < 10 then [digit_char n] else str_nat (n div 10) @ [digit_char (n mod 10)])"
  by pat_completeness auto
termination
  by (relation "measure (\<lambda>n. n)") auto

declare str_nat.simps [simp del]

definition str :: "int \<Rightarrow> string" where
  "str i = (if i < 0 then CHR ''-'' # str_nat (nat (- i)) else str_nat (nat i))"

text \<open>\<^verbatim>\<open>range(n)\<close> over Python integers: empty when \<open>n \<le> 0\<close>.\<close>

definition py_range :: "int \<Rightarrow> int list" where
  "py_range n = map int [0..<nat n]"

subsection \<open>Resolving the category lists (lines 73 to 87)\<close>

text \<open>\<^verbatim>\<open>{pos: code for code, pos in index.items()}\<close>: a later code at the same position wins.\<close>

definition pos_to_code_of :: "(string \<times> int) list \<Rightarrow> (int \<times> string) list" where
  "pos_to_code_of index = fold (\<lambda>(code, pos) d. AList.update pos code d) index []"

text \<open>\<^verbatim>\<open>[pos_to_code[i] for i in range(max_pos + 1)]\<close>: a position without a code raises \<open>KeyError\<close>.\<close>

fun lookup_all :: "(int \<times> string) list \<Rightarrow> int list \<Rightarrow> py_error + string list" where
  "lookup_all pos_to_code [] = Inr []"
| "lookup_all pos_to_code (i # rest) =
     (case map_of pos_to_code i of
        None \<Rightarrow> Inl KeyError
      | Some code \<Rightarrow>
          (case lookup_all pos_to_code rest of
             Inl e \<Rightarrow> Inl e
           | Inr codes \<Rightarrow> Inr (code # codes)))"

definition resolve_categories :: "category \<Rightarrow> py_error + string list" where
  "resolve_categories cat =
     (let index = (case cat of None \<Rightarrow> [] | Some ix \<Rightarrow> ix);
          pos_to_code = pos_to_code_of index
      in if pos_to_code = [] then Inr [''_missing_'']
         else let max_pos = Max (set (map fst pos_to_code))
              in lookup_all pos_to_code (py_range (max_pos + 1)))"

text \<open>The loop over \<^verbatim>\<open>dim_ids\<close> that fills \<^verbatim>\<open>dim_categories\<close>.\<close>

fun build_dim_categories ::
  "(string \<rightharpoonup> category) \<Rightarrow> string list \<Rightarrow> (string \<rightharpoonup> string list)
     \<Rightarrow> py_error + (string \<rightharpoonup> string list)" where
  "build_dim_categories dim [] dim_categories = Inr dim_categories"
| "build_dim_categories dim (dim_name # rest) dim_categories =
     (case dim dim_name of
        None \<Rightarrow> Inl KeyError
      | Some cat \<Rightarrow>
          (case resolve_categories cat of
             Inl e \<Rightarrow> Inl e
           | Inr codes \<Rightarrow> build_dim_categories dim rest (dim_categories(dim_name \<mapsto> codes))))"

subsection \<open>Observation count and strides (lines 90 to 102)\<close>

definition n_obs_of :: "int list \<Rightarrow> int" where
  "n_obs_of dim_sizes = fold (\<lambda>s n_obs. n_obs * s) dim_sizes 1"

text \<open>
  The loop state is \<open>(strides, acc)\<close>; \<^verbatim>\<open>strides.insert(0, acc)\<close> puts \<open>acc\<close> in front.
\<close>

definition strides_of :: "int list \<Rightarrow> int list" where
  "strides_of dim_sizes =
     fst (fold (\<lambda>size (strides, acc). (acc # strides, acc * size)) (rev dim_sizes) ([], 1))"

subsection \<open>Reading the value store (lines 105 to 111)\<close>

fun get_value_at :: "'v value_store \<Rightarrow> int \<Rightarrow> py_error + 'v option" where
  "get_value_at (Dense vs) idx = py_index vs idx"
| "get_value_at (Sparse m) idx = (case m (str idx) of None \<Rightarrow> Inr None | Some v \<Rightarrow> Inr v)"
| "get_value_at Other idx = Inr None"

subsection \<open>The main loop (lines 113 to 133)\<close>

text \<open>
  The inner loop over \<^verbatim>\<open>enumerate(dim_sizes)\<close>; its state is \<open>remaining\<close> and
  \<open>coord_codes\<close>. The loop variable \<^verbatim>\<open>size\<close> is not used by the body.
\<close>

fun coord_loop ::
  "int list \<Rightarrow> string list \<Rightarrow> (string \<rightharpoonup> string list) \<Rightarrow> nat list \<Rightarrow> int
     \<Rightarrow> (string \<times> string) list \<Rightarrow> py_error + (string \<times> string) list" where
  "coord_loop strides dim_ids dim_categories [] remaining coord_codes = Inr coord_codes"
| "coord_loop strides dim_ids dim_categories (dim_idx # rest) remaining coord_codes =
     (case py_index strides (int dim_idx) of
        Inl e \<Rightarrow> Inl e
      | Inr stride \<Rightarrow>
          if stride = 0 then Inl ZeroDivisionError
          else
            (case py_index dim_ids (int dim_idx) of
               Inl e \<Rightarrow> Inl e
             | Inr dim_name \<Rightarrow>
                 (case dim_categories dim_name of
                    None \<Rightarrow> Inl KeyError
                  | Some code_list \<Rightarrow>
                      (case py_index code_list (remaining div stride) of
                         Inl e \<Rightarrow> Inl e
                       | Inr code \<Rightarrow>
                           coord_loop strides dim_ids dim_categories rest (remaining mod stride)
                             (AList.update dim_name code coord_codes)))))"

text \<open>\<^verbatim>\<open>row = coord_codes.copy(); row["value"] = v\<close>.\<close>

definition make_row :: "(string \<times> string) list \<Rightarrow> 'v \<Rightarrow> 'v row" where
  "make_row coord_codes v =
     AList.update ''value'' (Val v) (map (\<lambda>(dim_name, code). (dim_name, Code code)) coord_codes)"

text \<open>The outer loop over \<^verbatim>\<open>range(n_obs)\<close>; its state is \<open>rows\<close>.\<close>

fun flat_loop ::
  "'v cube \<Rightarrow> int list \<Rightarrow> (string \<rightharpoonup> string list) \<Rightarrow> int list \<Rightarrow> 'v row list
     \<Rightarrow> py_error + 'v row list" where
  "flat_loop js strides dim_categories [] rows = Inr rows"
| "flat_loop js strides dim_categories (flat_idx # rest) rows =
     (case coord_loop strides (js_id js) dim_categories [0..<length (js_size js)] flat_idx [] of
        Inl e \<Rightarrow> Inl e
      | Inr coord_codes \<Rightarrow>
          (case get_value_at (js_value js) flat_idx of
             Inl e \<Rightarrow> Inl e
           | Inr None \<Rightarrow> flat_loop js strides dim_categories rest rows
           | Inr (Some v) \<Rightarrow>
               flat_loop js strides dim_categories rest (rows @ [make_row coord_codes v])))"

subsection \<open>The function\<close>

fun unwrap :: "'v document \<Rightarrow> 'v cube" where
  "unwrap (Dataset js) = js"
| "unwrap (Bare js) = js"

text \<open>
  The body after unwrapping. The returned list is the list \<^verbatim>\<open>rows\<close> handed to
  \<^verbatim>\<open>pd.DataFrame\<close>, which keeps one table row per dictionary, in list order.
\<close>

definition decode :: "'v cube \<Rightarrow> py_error + 'v row list" where
  "decode js =
     (case build_dim_categories (js_dimension js) (js_id js) Map.empty of
        Inl e \<Rightarrow> Inl e
      | Inr dim_categories \<Rightarrow>
          flat_loop js (strides_of (js_size js)) dim_categories
            (py_range (n_obs_of (js_size js))) [])"

definition jsonstat_to_dataframe :: "'v document \<Rightarrow> py_error + 'v row list" where
  "jsonstat_to_dataframe doc = decode (unwrap doc)"

subsection \<open>The cubes of the specification's examples\<close>

text \<open>
  Dimensions \<open>geo\<close> (categories A, B) and \<open>time\<close> (categories 2020, 2021, 2022),
  sizes 2 and 3.
\<close>

definition geo_time_dimension :: "string \<rightharpoonup> category" where
  "geo_time_dimension =
     [''geo'' \<mapsto> Some [(''A'', 0), (''B'', 1)],
      ''time'' \<mapsto> Some [(''2020'', 0), (''2021'', 1), (''2022'', 2)]]"

definition dense_cube :: "int cube" where
  "dense_cube =
     \<lparr> js_id = [''geo'', ''time''], js_size = [2, 3], js_dimension = geo_time_dimension,
       js_value = Dense [Some 1, Some 2, Some 3, Some 4, Some 5, Some 6] \<rparr>"

definition sparse_cube :: "int cube" where
  "sparse_cube =
     \<lparr> js_id = [''geo'', ''time''], js_size = [2, 3], js_dimension = geo_time_dimension,
       js_value = Sparse [''0'' \<mapsto> Some 1, ''3'' \<mapsto> Some 4, ''5'' \<mapsto> Some 6] \<rparr>"

subsection \<open>The algorithm in the specification's words\<close>

text \<open>
  Row-major strides as the specification words them: the stride of dimension \<open>j\<close> is the
  product of the sizes of the dimensions after \<open>j\<close> (so the stride of the last one is the
  empty product 1).
\<close>

definition rowmajor_strides :: "int list \<Rightarrow> int list" where
  "rowmajor_strides sizes = map (\<lambda>j. prod_list (drop (Suc j) sizes)) [0..<length sizes]"

text \<open>
  The coordinates of a flat position: divide by each stride in dimension order and carry the
  remainder to the next dimension.
\<close>

fun successive_divmod :: "int list \<Rightarrow> int \<Rightarrow> int list" where
  "successive_divmod [] remaining = []"
| "successive_divmod (stride # rest) remaining =
     (remaining div stride) # successive_divmod rest (remaining mod stride)"

definition coords_of :: "'v cube \<Rightarrow> int \<Rightarrow> int list" where
  "coords_of js flat_idx = successive_divmod (rowmajor_strides (js_size js)) flat_idx"

text \<open>
  The resolved category list of a dimension (the empty list when the dimension is not
  described or its positions have a gap).
\<close>

definition resolved :: "'v cube \<Rightarrow> string \<Rightarrow> string list" where
  "resolved js dim_name =
     (case js_dimension js dim_name of
        None \<Rightarrow> []
      | Some cat \<Rightarrow> (case resolve_categories cat of Inl e \<Rightarrow> [] | Inr codes \<Rightarrow> codes))"

text \<open>
  The indices that \<^verbatim>\<open>xs[k]\<close> accepts, and the element it selects (a negative index counts
  from the end).
\<close>

definition in_bounds :: "'a list \<Rightarrow> int \<Rightarrow> bool" where
  "in_bounds xs k \<longleftrightarrow> - int (length xs) \<le> k \<and> k < int (length xs)"

definition py_select :: "'a list \<Rightarrow> int \<Rightarrow> 'a" where
  "py_select xs k = (if k < 0 then xs ! nat (int (length xs) + k) else xs ! nat k)"

text \<open>The dictionary built by storing the pairs in order.\<close>

definition dict_of :: "('k \<times> 'a) list \<Rightarrow> ('k \<times> 'a) list" where
  "dict_of pairs = fold (\<lambda>(k, v) d. AList.update k v d) pairs []"

text \<open>
  The value at a flat position, \<open>None\<close> when the position has no value: a dense store is
  indexed directly, a sparse store is looked up under the decimal string of the position, and
  an absent key, like a \<^verbatim>\<open>null\<close> entry, is no value.
\<close>

definition value_at :: "'v value_store \<Rightarrow> int \<Rightarrow> 'v option" where
  "value_at store flat_idx =
     (case store of
        Dense vs \<Rightarrow> if in_bounds vs flat_idx then py_select vs flat_idx else None
      | Sparse m \<Rightarrow> (case m (str flat_idx) of None \<Rightarrow> None | Some v \<Rightarrow> v)
      | Other \<Rightarrow> None)"

text \<open>
  The observation of a flat position: each dimension paired with the category code at its
  coordinate, and the value.
\<close>

definition spec_codes :: "'v cube \<Rightarrow> int \<Rightarrow> (string \<times> string) list" where
  "spec_codes js flat_idx =
     map2 (\<lambda>dim_name k. (dim_name, py_select (resolved js dim_name) k))
       (js_id js) (coords_of js flat_idx)"

definition spec_observation :: "'v cube \<Rightarrow> int \<Rightarrow> 'v row" where
  "spec_observation js flat_idx =
     dict_of (map (\<lambda>(dim_name, code). (dim_name, Code code)) (spec_codes js flat_idx)
              @ [(''value'', Val (the (value_at (js_value js) flat_idx)))])"

text \<open>
  The flat positions that have a value, in increasing order; the flat positions are the
  integers from 0 up to, and without, the product of the sizes.
\<close>

definition present_positions :: "'v cube \<Rightarrow> int list" where
  "present_positions js =
     filter (\<lambda>flat_idx. value_at (js_value js) flat_idx \<noteq> None) [0..prod_list (js_size js) - 1]"

text \<open>One observation per flat position with a value, in increasing flat position.\<close>

definition spec_rows :: "'v cube \<Rightarrow> 'v row list" where
  "spec_rows js = map (spec_observation js) (present_positions js)"

subsection \<open>When the function raises\<close>

text \<open>Every dimension identifier is described and its positions have no gap.\<close>

definition categories_ok :: "'v cube \<Rightarrow> bool" where
  "categories_ok js =
     list_all
       (\<lambda>dim_name.
          case js_dimension js dim_name of
            None \<Rightarrow> False
          | Some cat \<Rightarrow> (case resolve_categories cat of Inl e \<Rightarrow> False | Inr codes \<Rightarrow> True))
       (js_id js)"

text \<open>
  Every size has an identifier and every coordinate of the flat position is an index that its
  category list accepts.
\<close>

definition coords_ok :: "'v cube \<Rightarrow> int \<Rightarrow> bool" where
  "coords_ok js flat_idx =
     list_all2 (\<lambda>dim_name k. in_bounds (resolved js dim_name) k)
       (take (length (js_size js)) (js_id js)) (coords_of js flat_idx)"

text \<open>The store can be read at the flat position: a dense store has an entry there.\<close>

definition value_ok :: "'v value_store \<Rightarrow> int \<Rightarrow> bool" where
  "value_ok store flat_idx =
     (case store of Dense vs \<Rightarrow> in_bounds vs flat_idx | Sparse m \<Rightarrow> True | Other \<Rightarrow> True)"

definition position_ok :: "'v cube \<Rightarrow> int \<Rightarrow> bool" where
  "position_ok js flat_idx \<longleftrightarrow> coords_ok js flat_idx \<and> value_ok (js_value js) flat_idx"

subsection \<open>Forms of the loops used in the proofs\<close>

text \<open>
  The inner loop as a recursion over the strides and the identifiers still to visit;
  lemma \<open>coord_loop_coord_zip\<close> shows that it is the loop.
\<close>

fun coord_zip ::
  "int list \<Rightarrow> string list \<Rightarrow> (string \<rightharpoonup> string list) \<Rightarrow> int
     \<Rightarrow> (string \<times> string) list \<Rightarrow> py_error + (string \<times> string) list" where
  "coord_zip [] names dim_categories remaining coord_codes = Inr coord_codes"
| "coord_zip (stride # rest) names dim_categories remaining coord_codes =
     (if stride = 0 then Inl ZeroDivisionError
      else
        (case names of
           [] \<Rightarrow> Inl IndexError
         | dim_name # names' \<Rightarrow>
             (case dim_categories dim_name of
                None \<Rightarrow> Inl KeyError
              | Some code_list \<Rightarrow>
                  (case py_index code_list (remaining div stride) of
                     Inl e \<Rightarrow> Inl e
                   | Inr code \<Rightarrow>
                       coord_zip rest names' dim_categories (remaining mod stride)
                         (AList.update dim_name code coord_codes)))))"

text \<open>One pass of the outer loop's body: an error, no row, or the row to append.\<close>

definition observe ::
  "'v cube \<Rightarrow> int list \<Rightarrow> (string \<rightharpoonup> string list) \<Rightarrow> int \<Rightarrow> py_error + 'v row option" where
  "observe js strides dim_categories flat_idx =
     (case coord_loop strides (js_id js) dim_categories [0..<length (js_size js)] flat_idx [] of
        Inl e \<Rightarrow> Inl e
      | Inr coord_codes \<Rightarrow>
          (case get_value_at (js_value js) flat_idx of
             Inl e \<Rightarrow> Inl e
           | Inr None \<Rightarrow> Inr None
           | Inr (Some v) \<Rightarrow> Inr (Some (make_row coord_codes v))))"

subsection \<open>Well-formed cubes\<close>

text \<open>
  The specification's invariants on the dimensions: there is at least one dimension, every
  dimension has a positive size, and the size is the length of the resolved category list
  (the placeholder list for a dimension without categories).
\<close>

definition well_formed_dims :: "'v cube \<Rightarrow> bool" where
  "well_formed_dims js \<longleftrightarrow>
     js_id js \<noteq> [] \<and> categories_ok js \<and>
     list_all2 (\<lambda>dim_name size. 0 < size \<and> int (length (resolved js dim_name)) = size)
       (js_id js) (js_size js)"

text \<open>
  The specification's invariants on the value store: a dense store is aligned to the flat
  positions (one entry per position, \<^verbatim>\<open>null\<close> for no value); a sparse store maps flat
  positions, written in decimal, to numbers.
\<close>

definition well_formed :: "'v cube \<Rightarrow> bool" where
  "well_formed js \<longleftrightarrow>
     well_formed_dims js \<and>
     (case js_value js of
        Dense vs \<Rightarrow> int (length vs) = prod_list (js_size js)
      | Sparse m \<Rightarrow>
          dom m \<subseteq> str ` set (py_range (prod_list (js_size js))) \<and>
          (\<forall>k \<in> dom m. m k \<noteq> Some None)
      | Other \<Rightarrow> False)"

subsection \<open>Further cubes\<close>

text \<open>
  A 2 by 3 cube whose categories are not in alphabetical order, with a dense store that has no
  value at the flat positions 1, 3 and 4, and with a sparse store whose entry at flat
  position 2 is \<^verbatim>\<open>null\<close>.
\<close>

definition unsorted_dimension :: "string \<rightharpoonup> category" where
  "unsorted_dimension =
     [''geo'' \<mapsto> Some [(''B'', 0), (''A'', 1)],
      ''time'' \<mapsto> Some [(''2022'', 0), (''2020'', 1), (''2021'', 2)]]"

definition unsorted_cube :: "int cube" where
  "unsorted_cube =
     \<lparr> js_id = [''geo'', ''time''], js_size = [2, 3], js_dimension = unsorted_dimension,
       js_value = Dense [Some 1, None, Some 3, None, None, Some 6] \<rparr>"

definition unsorted_sparse_cube :: "int cube" where
  "unsorted_sparse_cube =
     \<lparr> js_id = [''geo'', ''time''], js_size = [2, 3], js_dimension = unsorted_dimension,
       js_value = Sparse [''5'' \<mapsto> Some 6, ''2'' \<mapsto> None, ''0'' \<mapsto> Some 1] \<rparr>"

text \<open>The 2 by 3 cube of the examples with no value at the flat positions 1, 3 and 4.\<close>

definition holes_cube :: "int cube" where
  "holes_cube =
     \<lparr> js_id = [''geo'', ''time''], js_size = [2, 3], js_dimension = geo_time_dimension,
       js_value = Dense [Some 1, None, Some 3, None, None, Some 6] \<rparr>"

text \<open>No dimension at all, and a store with a value at flat position 0.\<close>

definition no_dimension_cube :: "int cube" where
  "no_dimension_cube =
     \<lparr> js_id = [], js_size = [], js_dimension = Map.empty, js_value = Dense [Some 7] \<rparr>"

definition no_dimension_sparse_cube :: "int cube" where
  "no_dimension_sparse_cube =
     \<lparr> js_id = [], js_size = [], js_dimension = Map.empty,
       js_value = Sparse [''0'' \<mapsto> Some 5] \<rparr>"

text \<open>The 2 by 3 cube with a store that is neither a list nor a dictionary.\<close>

definition other_store_cube :: "int cube" where
  "other_store_cube =
     \<lparr> js_id = [''geo'', ''time''], js_size = [2, 3], js_dimension = geo_time_dimension,
       js_value = Other \<rparr>"

text \<open>The 2 by 3 cube with seven and with five dense values.\<close>

definition long_dense_cube :: "int cube" where
  "long_dense_cube =
     \<lparr> js_id = [''geo'', ''time''], js_size = [2, 3], js_dimension = geo_time_dimension,
       js_value = Dense [Some 1, Some 2, Some 3, Some 4, Some 5, Some 6, Some 7] \<rparr>"

definition short_dense_cube :: "int cube" where
  "short_dense_cube =
     \<lparr> js_id = [''geo'', ''time''], js_size = [2, 3], js_dimension = geo_time_dimension,
       js_value = Dense [Some 1, Some 2, Some 3, Some 4, Some 5] \<rparr>"

text \<open>Declared sizes -1 and -2: the size product is 2.\<close>

definition negative_size_cube :: "int cube" where
  "negative_size_cube =
     \<lparr> js_id = [''geo'', ''time''], js_size = [- 1, - 2], js_dimension = geo_time_dimension,
       js_value = Dense [Some 1, Some 2] \<rparr>"

text \<open>Dimension \<open>geo\<close> declared with size 3, one more than its categories.\<close>

definition oversized_cube :: "int cube" where
  "oversized_cube =
     \<lparr> js_id = [''geo''], js_size = [3], js_dimension = geo_time_dimension,
       js_value = Dense [Some 1, Some 2, Some 3] \<rparr>"

text \<open>A sparse store with keys that are no flat position of the 2 by 3 cube.\<close>

definition noisy_store :: "string \<rightharpoonup> int option" where
  "noisy_store =
     [''0'' \<mapsto> Some 1, ''3'' \<mapsto> Some 4, ''5'' \<mapsto> Some 6,
      ''6'' \<mapsto> Some 9, ''03'' \<mapsto> Some 8, ''x'' \<mapsto> Some 2]"

definition noisy_sparse_cube :: "int cube" where
  "noisy_sparse_cube =
     \<lparr> js_id = [''geo'', ''time''], js_size = [2, 3], js_dimension = geo_time_dimension,
       js_value = Sparse noisy_store \<rparr>"

subsection \<open>A cube without one of its dimensions\<close>

text \<open>The cube with the identifier and the size at index \<open>k\<close> removed.\<close>

definition drop_dimension :: "nat \<Rightarrow> 'v cube \<Rightarrow> 'v cube" where
  "drop_dimension k js =
     js\<lparr>js_id := take k (js_id js) @ drop (Suc k) (js_id js),
        js_size := take k (js_size js) @ drop (Suc k) (js_size js)\<rparr>"

text \<open>A dimension supplies no categories: its index is missing or empty.\<close>

definition no_categories :: "category \<Rightarrow> bool" where
  "no_categories cat \<longleftrightarrow> (case cat of None \<Rightarrow> True | Some index \<Rightarrow> index = [])"

text \<open>A function applied to the rows of a result, an error passed on.\<close>

definition map_result :: "('a \<Rightarrow> 'b) \<Rightarrow> py_error + 'a \<Rightarrow> py_error + 'b" where
  "map_result f res = (case res of Inl e \<Rightarrow> Inl e | Inr x \<Rightarrow> Inr (f x))"

text \<open>
  The 2 by 3 cube with a dimension \<open>unit\<close> that has an empty index, declared with size 1
  between the two others, and declared with size 2 after \<open>geo\<close>.
\<close>

definition placeholder_dimension :: "string \<rightharpoonup> category" where
  "placeholder_dimension = geo_time_dimension(''unit'' \<mapsto> Some [])"

definition placeholder_cube :: "int cube" where
  "placeholder_cube =
     \<lparr> js_id = [''geo'', ''unit'', ''time''], js_size = [2, 1, 3],
       js_dimension = placeholder_dimension,
       js_value = Dense [Some 1, Some 2, Some 3, Some 4, Some 5, Some 6] \<rparr>"

definition placeholder_size_cube :: "int cube" where
  "placeholder_size_cube =
     \<lparr> js_id = [''geo'', ''unit''], js_size = [2, 2],
       js_dimension = placeholder_dimension,
       js_value = Dense [Some 1, Some 2, Some 3, Some 4] \<rparr>"

subsection \<open>The function on a store of Python objects\<close>

text \<open>
  A second embedding of \<^verbatim>\<open>jsonstat_to_dataframe\<close>, in which lists and dictionaries are
  objects in a store and variables hold references to them, so that aliasing and mutation
  are visible. A value is \<^verbatim>\<open>None\<close>, an integer, a string, a number of the value store, or
  a reference; an object is a list or a dictionary (its items in insertion order). The store
  is the list of all objects, an address is an index into it, and a new object is put at the
  end. Every statement of the source that assigns into an object
  (\<^verbatim>\<open>d[k] = v\<close>, \<^verbatim>\<open>l.insert(0, v)\<close>, \<^verbatim>\<open>l.append(v)\<close>) is an update of the store at the
  address the variable holds.
\<close>

datatype 'v pyval = PNone | PInt int | PStr string | PNum 'v | PRef nat

datatype 'v pyobj = PList "'v pyval list" | PDict "('v pyval \<times> 'v pyval) list"

type_synonym 'v store = "'v pyobj list"

text \<open>
  \<open>TypeError\<close> stands for an operation applied to a value of the wrong kind (Python raises
  \<^verbatim>\<open>TypeError\<close> or \<^verbatim>\<open>AttributeError\<close>); it cannot arise on a store that holds a cube.
\<close>

datatype st_error = Py py_error | TypeError

text \<open>A new object: its address is the next free index.\<close>

definition alloc :: "'v pyobj \<Rightarrow> 'v store \<Rightarrow> nat \<times> 'v store" where
  "alloc obj h = (length h, h @ [obj])"

text \<open>The object a value refers to, if the value is a reference into the store.\<close>

definition obj_at :: "'v store \<Rightarrow> 'v pyval \<Rightarrow> 'v pyobj option" where
  "obj_at h v = (case v of PRef a \<Rightarrow> (if a < length h then Some (h ! a) else None) | _ \<Rightarrow> None)"

text \<open>
  Reading: \<^verbatim>\<open>d.items()\<close>, the items of a list, \<^verbatim>\<open>d[k]\<close>, \<^verbatim>\<open>d.get(k, default)\<close>,
  \<^verbatim>\<open>l[i]\<close>, and an integer operand.
\<close>

definition dict_items :: "'v store \<Rightarrow> 'v pyval \<Rightarrow> st_error + ('v pyval \<times> 'v pyval) list" where
  "dict_items h d = (case obj_at h d of Some (PDict kvs) \<Rightarrow> Inr kvs | _ \<Rightarrow> Inl TypeError)"

definition list_items :: "'v store \<Rightarrow> 'v pyval \<Rightarrow> st_error + 'v pyval list" where
  "list_items h l = (case obj_at h l of Some (PList xs) \<Rightarrow> Inr xs | _ \<Rightarrow> Inl TypeError)"

definition dict_getitem :: "'v store \<Rightarrow> 'v pyval \<Rightarrow> 'v pyval \<Rightarrow> st_error + 'v pyval" where
  "dict_getitem h d k =
     (case dict_items h d of
        Inl e \<Rightarrow> Inl e
      | Inr kvs \<Rightarrow> (case map_of kvs k of None \<Rightarrow> Inl (Py KeyError) | Some v \<Rightarrow> Inr v))"

definition dict_get :: "'v store \<Rightarrow> 'v pyval \<Rightarrow> 'v pyval \<Rightarrow> 'v pyval \<Rightarrow> st_error + 'v pyval" where
  "dict_get h d k dflt =
     (case dict_items h d of
        Inl e \<Rightarrow> Inl e
      | Inr kvs \<Rightarrow> (case map_of kvs k of None \<Rightarrow> Inr dflt | Some v \<Rightarrow> Inr v))"

definition list_getitem :: "'v store \<Rightarrow> 'v pyval \<Rightarrow> int \<Rightarrow> st_error + 'v pyval" where
  "list_getitem h l i =
     (case list_items h l of
        Inl e \<Rightarrow> Inl e
      | Inr xs \<Rightarrow> (case py_index xs i of Inl e \<Rightarrow> Inl (Py e) | Inr x \<Rightarrow> Inr x))"

definition int_of :: "'v pyval \<Rightarrow> st_error + int" where
  "int_of v = (case v of PInt i \<Rightarrow> Inr i | _ \<Rightarrow> Inl TypeError)"

text \<open>
  Writing: \<^verbatim>\<open>d[k] = v\<close>, \<^verbatim>\<open>l.insert(0, v)\<close> and \<^verbatim>\<open>l.append(v)\<close> on the object at an
  address. The function applies them only to objects it has created itself, of the right kind.
\<close>

definition dict_setitem :: "nat \<Rightarrow> 'v pyval \<Rightarrow> 'v pyval \<Rightarrow> 'v store \<Rightarrow> 'v store" where
  "dict_setitem a k v h = (case h ! a of PDict kvs \<Rightarrow> h[a := PDict (AList.update k v kvs)] | _ \<Rightarrow> h)"

definition list_insert0 :: "nat \<Rightarrow> 'v pyval \<Rightarrow> 'v store \<Rightarrow> 'v store" where
  "list_insert0 a v h = (case h ! a of PList xs \<Rightarrow> h[a := PList (v # xs)] | _ \<Rightarrow> h)"

definition list_append :: "nat \<Rightarrow> 'v pyval \<Rightarrow> 'v store \<Rightarrow> 'v store" where
  "list_append a v h = (case h ! a of PList xs \<Rightarrow> h[a := PList (xs @ [v])] | _ \<Rightarrow> h)"

text \<open>
  Lines 85 and 86: \<^verbatim>\<open>max(pos_to_code.keys())\<close> and \<^verbatim>\<open>range(max_pos + 1)\<close> need integer
  keys; \<^verbatim>\<open>[pos_to_code[i] for i in range(max_pos + 1)]\<close>.
\<close>

fun ints_of :: "'v pyval list \<Rightarrow> st_error + int list" where
  "ints_of [] = Inr []"
| "ints_of (v # vs) =
     (case int_of v of
        Inl e \<Rightarrow> Inl e
      | Inr i \<Rightarrow> (case ints_of vs of Inl e \<Rightarrow> Inl e | Inr is' \<Rightarrow> Inr (i # is')))"

fun lookup_all_st :: "('v pyval \<times> 'v pyval) list \<Rightarrow> int list \<Rightarrow> st_error + 'v pyval list" where
  "lookup_all_st pos_to_code [] = Inr []"
| "lookup_all_st pos_to_code (i # rest) =
     (case map_of pos_to_code (PInt i) of
        None \<Rightarrow> Inl (Py KeyError)
      | Some code \<Rightarrow>
          (case lookup_all_st pos_to_code rest of
             Inl e \<Rightarrow> Inl e
           | Inr codes \<Rightarrow> Inr (code # codes)))"

text \<open>
  Lines 75 to 87, the loop over \<^verbatim>\<open>dim_ids\<close>. The default \<^verbatim>\<open>{}\<close> of
  \<^verbatim>\<open>cat.get("index", {})\<close> is a new dictionary, the comprehension builds the new dictionary
  \<^verbatim>\<open>pos_to_code\<close>, the placeholder list and \<^verbatim>\<open>ordered_codes\<close> are new lists, and
  \<^verbatim>\<open>dim_categories[dim_name] = ...\<close> writes into the dictionary at \<open>dim_categories\<close>.
\<close>

fun build_st ::
  "'v pyval \<Rightarrow> 'v pyval list \<Rightarrow> nat \<Rightarrow> 'v store \<Rightarrow> (st_error + unit) \<times> 'v store" where
  "build_st dim [] dim_categories h = (Inr (), h)"
| "build_st dim (dim_name # rest) dim_categories h =
     (case dict_getitem h dim dim_name of
        Inl e \<Rightarrow> (Inl e, h)
      | Inr d \<Rightarrow>
     (case dict_getitem h d (PStr ''category'') of
        Inl e \<Rightarrow> (Inl e, h)
      | Inr cat \<Rightarrow>
     (case alloc (PDict []) h of (dflt, h1) \<Rightarrow>
     (case dict_get h1 cat (PStr ''index'') (PRef dflt) of
        Inl e \<Rightarrow> (Inl e, h1)
      | Inr index \<Rightarrow>
     (case dict_items h1 index of
        Inl e \<Rightarrow> (Inl e, h1)
      | Inr items \<Rightarrow>
     (case alloc (PDict (fold (\<lambda>(code, pos) d. AList.update pos code d) items [])) h1 of
        (pos_to_code, h2) \<Rightarrow>
     (case dict_items h2 (PRef pos_to_code) of
        Inl e \<Rightarrow> (Inl e, h2)
      | Inr p2c \<Rightarrow>
          if p2c = [] then
            (case alloc (PList [PStr ''_missing_'']) h2 of (placeholder, h3) \<Rightarrow>
               build_st dim rest dim_categories
                 (dict_setitem dim_categories dim_name (PRef placeholder) h3))
          else
            (case ints_of (map fst p2c) of
               Inl e \<Rightarrow> (Inl e, h2)
             | Inr keys \<Rightarrow>
            (case lookup_all_st p2c (py_range (Max (set keys) + 1)) of
               Inl e \<Rightarrow> (Inl e, h2)
             | Inr codes \<Rightarrow>
            (case alloc (PList codes) h2 of (ordered_codes, h3) \<Rightarrow>
               build_st dim rest dim_categories
                 (dict_setitem dim_categories dim_name (PRef ordered_codes) h3)))))))))))"

text \<open>Lines 91 to 93 and 98 to 102; \<^verbatim>\<open>strides.insert(0, acc)\<close> writes into the list at \<open>strides\<close>.\<close>

fun n_obs_st :: "'v pyval list \<Rightarrow> int \<Rightarrow> st_error + int" where
  "n_obs_st [] n_obs = Inr n_obs"
| "n_obs_st (s # rest) n_obs =
     (case int_of s of Inl e \<Rightarrow> Inl e | Inr sz \<Rightarrow> n_obs_st rest (n_obs * sz))"

fun strides_st :: "nat \<Rightarrow> 'v pyval list \<Rightarrow> int \<Rightarrow> 'v store \<Rightarrow> (st_error + unit) \<times> 'v store" where
  "strides_st strides [] acc h = (Inr (), h)"
| "strides_st strides (s # rest) acc h =
     (case list_insert0 strides (PInt acc) h of h1 \<Rightarrow>
        (case int_of s of
           Inl e \<Rightarrow> (Inl e, h1)
         | Inr sz \<Rightarrow> strides_st strides rest (acc * sz) h1))"

text \<open>Lines 105 to 111.\<close>

definition get_value_at_st :: "'v store \<Rightarrow> 'v pyval \<Rightarrow> int \<Rightarrow> st_error + 'v pyval" where
  "get_value_at_st h val idx =
     (case obj_at h val of
        Some (PList vs) \<Rightarrow> list_getitem h val idx
      | Some (PDict kvs) \<Rightarrow> dict_get h val (PStr (str idx)) PNone
      | None \<Rightarrow> Inr PNone)"

text \<open>
  Lines 116 to 124, the inner loop; \<^verbatim>\<open>coord_codes[dim_name] = code\<close> writes into the
  dictionary at \<open>coord_codes\<close>.
\<close>

fun coord_st ::
  "nat \<Rightarrow> 'v pyval \<Rightarrow> nat \<Rightarrow> nat \<Rightarrow> nat list \<Rightarrow> int \<Rightarrow> 'v store
     \<Rightarrow> (st_error + unit) \<times> 'v store" where
  "coord_st strides dim_ids dim_categories coord_codes [] remaining h = (Inr (), h)"
| "coord_st strides dim_ids dim_categories coord_codes (dim_idx # rest) remaining h =
     (case list_getitem h (PRef strides) (int dim_idx) of
        Inl e \<Rightarrow> (Inl e, h)
      | Inr sv \<Rightarrow>
     (case int_of sv of
        Inl e \<Rightarrow> (Inl e, h)
      | Inr stride \<Rightarrow>
          if stride = 0 then (Inl (Py ZeroDivisionError), h)
          else
     (case list_getitem h dim_ids (int dim_idx) of
        Inl e \<Rightarrow> (Inl e, h)
      | Inr dim_name \<Rightarrow>
     (case dict_getitem h (PRef dim_categories) dim_name of
        Inl e \<Rightarrow> (Inl e, h)
      | Inr code_list \<Rightarrow>
     (case list_getitem h code_list (remaining div stride) of
        Inl e \<Rightarrow> (Inl e, h)
      | Inr code \<Rightarrow>
          coord_st strides dim_ids dim_categories coord_codes rest (remaining mod stride)
            (dict_setitem coord_codes dim_name code h))))))"

text \<open>
  Lines 113 to 133, the outer loop: \<^verbatim>\<open>coord_codes = {}\<close> is a new dictionary,
  \<^verbatim>\<open>coord_codes.copy()\<close> a new dictionary with the same items, \<^verbatim>\<open>row["value"] = v\<close> writes
  into the copy and \<^verbatim>\<open>rows.append(row)\<close> into the list at \<open>rows\<close>.
\<close>

fun flat_st ::
  "nat \<Rightarrow> 'v pyval \<Rightarrow> nat \<Rightarrow> 'v pyval \<Rightarrow> nat \<Rightarrow> nat \<Rightarrow> int list \<Rightarrow> 'v store
     \<Rightarrow> (st_error + unit) \<times> 'v store" where
  "flat_st strides dim_ids dim_categories val n_dims rows [] h = (Inr (), h)"
| "flat_st strides dim_ids dim_categories val n_dims rows (flat_idx # rest) h =
     (case alloc (PDict []) h of (coord_codes, h1) \<Rightarrow>
     (case coord_st strides dim_ids dim_categories coord_codes [0..<n_dims] flat_idx h1 of
        (Inl e, h2) \<Rightarrow> (Inl e, h2)
      | (Inr u, h2) \<Rightarrow>
     (case get_value_at_st h2 val flat_idx of
        Inl e \<Rightarrow> (Inl e, h2)
      | Inr v \<Rightarrow>
          if v = PNone then flat_st strides dim_ids dim_categories val n_dims rows rest h2
          else
     (case dict_items h2 (PRef coord_codes) of
        Inl e \<Rightarrow> (Inl e, h2)
      | Inr cc \<Rightarrow>
     (case alloc (PDict cc) h2 of (row, h3) \<Rightarrow>
        flat_st strides dim_ids dim_categories val n_dims rows rest
          (list_append rows (PRef row) (dict_setitem row (PStr ''value'') v h3)))))))"

text \<open>
  Line 135, \<^verbatim>\<open>pd.DataFrame(rows)\<close>: the table has one row per dictionary of the list, read
  from the store when the table is built.
\<close>

fun cell_of :: "'v pyval \<Rightarrow> st_error + 'v cell" where
  "cell_of (PStr code) = Inr (Code code)"
| "cell_of (PNum x) = Inr (Val x)"
| "cell_of v = Inl TypeError"

fun row_of :: "('v pyval \<times> 'v pyval) list \<Rightarrow> st_error + 'v row" where
  "row_of [] = Inr []"
| "row_of ((k, v) # rest) =
     (case k of
        PStr column \<Rightarrow>
          (case cell_of v of
             Inl e \<Rightarrow> Inl e
           | Inr cell \<Rightarrow>
               (case row_of rest of Inl e \<Rightarrow> Inl e | Inr r \<Rightarrow> Inr ((column, cell) # r)))
      | _ \<Rightarrow> Inl TypeError)"

fun frame_rows :: "'v store \<Rightarrow> 'v pyval list \<Rightarrow> st_error + 'v row list" where
  "frame_rows h [] = Inr []"
| "frame_rows h (r # rest) =
     (case dict_items h r of
        Inl e \<Rightarrow> Inl e
      | Inr kvs \<Rightarrow>
          (case row_of kvs of
             Inl e \<Rightarrow> Inl e
           | Inr row \<Rightarrow>
               (case frame_rows h rest of Inl e \<Rightarrow> Inl e | Inr rows \<Rightarrow> Inr (row # rows))))"

definition data_frame :: "'v store \<Rightarrow> nat \<Rightarrow> st_error + 'v row list" where
  "data_frame h rows =
     (case list_items h (PRef rows) of Inl e \<Rightarrow> Inl e | Inr refs \<Rightarrow> frame_rows h refs)"

text \<open>The function: the result, and the store it leaves.\<close>

definition jsonstat_to_dataframe_st ::
  "'v pyval \<Rightarrow> 'v store \<Rightarrow> (st_error + 'v row list) \<times> 'v store" where
  "jsonstat_to_dataframe_st js0 h =
     (case dict_items h js0 of
        Inl e \<Rightarrow> (Inl e, h)
      | Inr entries \<Rightarrow>
     (case (case map_of entries (PStr ''dataset'') of None \<Rightarrow> js0 | Some d \<Rightarrow> d) of js \<Rightarrow>
     (case dict_getitem h js (PStr ''dimension'') of
        Inl e \<Rightarrow> (Inl e, h)
      | Inr dim \<Rightarrow>
     (case dict_getitem h js (PStr ''value'') of
        Inl e \<Rightarrow> (Inl e, h)
      | Inr val \<Rightarrow>
     (case dict_getitem h js (PStr ''id'') of
        Inl e \<Rightarrow> (Inl e, h)
      | Inr dim_ids \<Rightarrow>
     (case dict_getitem h js (PStr ''size'') of
        Inl e \<Rightarrow> (Inl e, h)
      | Inr dim_sizes \<Rightarrow>
     (case alloc (PDict []) h of (dim_categories, h1) \<Rightarrow>
     (case list_items h1 dim_ids of
        Inl e \<Rightarrow> (Inl e, h1)
      | Inr names \<Rightarrow>
     (case build_st dim names dim_categories h1 of
        (Inl e, h2) \<Rightarrow> (Inl e, h2)
      | (Inr u, h2) \<Rightarrow>
     (case list_items h2 dim_sizes of
        Inl e \<Rightarrow> (Inl e, h2)
      | Inr sizes \<Rightarrow>
     (case n_obs_st sizes 1 of
        Inl e \<Rightarrow> (Inl e, h2)
      | Inr n_obs \<Rightarrow>
     (case alloc (PList []) h2 of (rows, h3) \<Rightarrow>
     (case alloc (PList []) h3 of (strides, h4) \<Rightarrow>
     (case strides_st strides (rev sizes) 1 h4 of
        (Inl e, h5) \<Rightarrow> (Inl e, h5)
      | (Inr u, h5) \<Rightarrow>
     (case flat_st strides dim_ids dim_categories val (length sizes) rows (py_range n_obs) h5 of
        (Inl e, h6) \<Rightarrow> (Inl e, h6)
      | (Inr u, h6) \<Rightarrow> (data_frame h6 rows, h6))))))))))))))))"

subsection \<open>A cube held in a store\<close>

text \<open>
  The store holds a document at a value: the objects of the JSON document are in the store,
  linked by references (they may be shared), with the dimension identifiers, the sizes, the
  category indices and the value store of the cube.
\<close>

definition enc_opt :: "'v option \<Rightarrow> 'v pyval" where
  "enc_opt v = (case v of None \<Rightarrow> PNone | Some x \<Rightarrow> PNum x)"

definition is_index :: "'v store \<Rightarrow> 'v pyval \<Rightarrow> (string \<times> int) list \<Rightarrow> bool" where
  "is_index h v index \<longleftrightarrow>
     obj_at h v = Some (PDict (map (\<lambda>(code, pos). (PStr code, PInt pos)) index))"

definition is_category :: "'v store \<Rightarrow> 'v pyval \<Rightarrow> category \<Rightarrow> bool" where
  "is_category h v cat \<longleftrightarrow>
     (\<exists>kvs. obj_at h v = Some (PDict kvs) \<and>
        (case cat of
           None \<Rightarrow> map_of kvs (PStr ''index'') = None
         | Some index \<Rightarrow> (\<exists>iv. map_of kvs (PStr ''index'') = Some iv \<and> is_index h iv index)))"

definition is_dim :: "'v store \<Rightarrow> 'v pyval \<Rightarrow> category \<Rightarrow> bool" where
  "is_dim h v cat \<longleftrightarrow>
     (\<exists>kvs cv. obj_at h v = Some (PDict kvs) \<and> map_of kvs (PStr ''category'') = Some cv \<and>
        is_category h cv cat)"

definition is_dimension :: "'v store \<Rightarrow> 'v pyval \<Rightarrow> (string \<rightharpoonup> category) \<Rightarrow> bool" where
  "is_dimension h v dm \<longleftrightarrow>
     (\<exists>kvs. obj_at h v = Some (PDict kvs) \<and>
        (\<forall>dim_name.
           case dm dim_name of
             None \<Rightarrow> map_of kvs (PStr dim_name) = None
           | Some cat \<Rightarrow> (\<exists>dv. map_of kvs (PStr dim_name) = Some dv \<and> is_dim h dv cat)))"

definition is_value :: "'v store \<Rightarrow> 'v pyval \<Rightarrow> 'v value_store \<Rightarrow> bool" where
  "is_value h v store \<longleftrightarrow>
     (case store of
        Dense vs \<Rightarrow> obj_at h v = Some (PList (map enc_opt vs))
      | Sparse m \<Rightarrow>
          (\<exists>kvs. obj_at h v = Some (PDict kvs) \<and>
             (\<forall>k. map_of kvs (PStr k) = map_option enc_opt (m k)))
      | Other \<Rightarrow> (\<forall>a. v \<noteq> PRef a))"

definition is_cube :: "'v store \<Rightarrow> 'v pyval \<Rightarrow> 'v cube \<Rightarrow> bool" where
  "is_cube h v js \<longleftrightarrow>
     (\<exists>kvs dim val ids sizes.
        obj_at h v = Some (PDict kvs) \<and>
        map_of kvs (PStr ''dimension'') = Some dim \<and> is_dimension h dim (js_dimension js) \<and>
        map_of kvs (PStr ''value'') = Some val \<and> is_value h val (js_value js) \<and>
        map_of kvs (PStr ''id'') = Some ids \<and> obj_at h ids = Some (PList (map PStr (js_id js))) \<and>
        map_of kvs (PStr ''size'') = Some sizes \<and>
        obj_at h sizes = Some (PList (map PInt (js_size js))))"

definition is_document :: "'v store \<Rightarrow> 'v pyval \<Rightarrow> 'v document \<Rightarrow> bool" where
  "is_document h v doc \<longleftrightarrow>
     (\<exists>kvs. obj_at h v = Some (PDict kvs) \<and>
        (case doc of
           Bare js \<Rightarrow> map_of kvs (PStr ''dataset'') = None \<and> is_cube h v js
         | Dataset js \<Rightarrow> (\<exists>d. map_of kvs (PStr ''dataset'') = Some d \<and> is_cube h d js)))"

text \<open>A store that holds the dense 2 by 3 cube, the document at address 10.\<close>

definition dense_store :: "int store" where
  "dense_store =
     [PList [PStr ''geo'', PStr ''time''],
      PList [PInt 2, PInt 3],
      PDict [(PStr ''A'', PInt 0), (PStr ''B'', PInt 1)],
      PDict [(PStr ''index'', PRef 2)],
      PDict [(PStr ''category'', PRef 3)],
      PDict [(PStr ''2020'', PInt 0), (PStr ''2021'', PInt 1), (PStr ''2022'', PInt 2)],
      PDict [(PStr ''index'', PRef 5)],
      PDict [(PStr ''category'', PRef 6)],
      PDict [(PStr ''geo'', PRef 4), (PStr ''time'', PRef 7)],
      PList [PNum 1, PNum 2, PNum 3, PNum 4, PNum 5, PNum 6],
      PDict [(PStr ''id'', PRef 0), (PStr ''size'', PRef 1), (PStr ''dimension'', PRef 8),
             (PStr ''value'', PRef 9)]]"

text \<open>
  Every object of the first store is in the second one, at the same address and with the same
  content.
\<close>

definition extends :: "'v store \<Rightarrow> 'v store \<Rightarrow> bool" where
  "extends h0 h \<longleftrightarrow> length h0 \<le> length h \<and> (\<forall>a < length h0. h ! a = h0 ! a)"

text \<open>The result of the function on cubes, read as a result of the function on stores.\<close>

definition as_st :: "py_error + 'a \<Rightarrow> st_error + 'a" where
  "as_st res = (case res of Inl e \<Rightarrow> Inl (Py e) | Inr x \<Rightarrow> Inr x)"

text \<open>
  What the loops maintain: the items of \<open>coord_codes\<close> and of a row, the dictionary
  \<open>dim_categories\<close> with its category lists, and the list \<open>rows\<close> with its rows.
\<close>

definition enc_cc :: "(string \<times> string) list \<Rightarrow> ('v pyval \<times> 'v pyval) list" where
  "enc_cc cc = map (\<lambda>(dim_name, code). (PStr dim_name, PStr code)) cc"

definition enc_cell :: "'v cell \<Rightarrow> 'v pyval" where
  "enc_cell c = (case c of Code code \<Rightarrow> PStr code | Val x \<Rightarrow> PNum x)"

definition enc_row :: "'v row \<Rightarrow> ('v pyval \<times> 'v pyval) list" where
  "enc_row r = map (\<lambda>(column, c). (PStr column, enc_cell c)) r"

definition dc_rep :: "'v store \<Rightarrow> nat \<Rightarrow> (string \<rightharpoonup> string list) \<Rightarrow> bool" where
  "dc_rep h dc cats \<longleftrightarrow>
     dc < length h \<and>
     (\<exists>kvs. h ! dc = PDict kvs \<and>
        (\<forall>dim_name.
           case cats dim_name of
             None \<Rightarrow> map_of kvs (PStr dim_name) = None
           | Some codes \<Rightarrow>
               (\<exists>a. map_of kvs (PStr dim_name) = Some (PRef a) \<and> dc < a \<and> a < length h \<and>
                  h ! a = PList (map PStr codes))))"

definition rows_rep :: "'v store \<Rightarrow> nat \<Rightarrow> 'v row list \<Rightarrow> bool" where
  "rows_rep h rows rs \<longleftrightarrow>
     rows < length h \<and>
     (\<exists>refs. h ! rows = PList (map PRef refs) \<and>
        list_all2 (\<lambda>a r. rows < a \<and> a < length h \<and> h ! a = PDict (enc_row r)) refs rs)"

section \<open>Properties\<close>

subsection \<open>Observation count and strides\<close>

lemma fold_mult_prod: "fold (\<lambda>s n. n * s) ss (a::int) = a * prod_list ss"
  by (induction ss arbitrary: a) (simp_all add: mult.assoc)

lemma n_obs_of_prod_list: "n_obs_of ss = prod_list ss"
  by (simp add: n_obs_of_def fold_mult_prod)

lemma strides_foldr:
  "foldr (\<lambda>size (strides, acc). (acc # strides, acc * size)) ss ([], 1::int)
     = (map (\<lambda>j. prod_list (drop (Suc j) ss)) [0..<length ss], prod_list ss)"
proof (induction ss)
  case Nil
  then show ?case by simp
next
  case (Cons s ss)
  have "[0..<length (s # ss)] = 0 # map Suc [0..<length ss]"
    by (simp add: upt_conv_Cons map_Suc_upt del: upt_Suc)
  then show ?case using Cons by (simp add: comp_def ac_simps del: upt_Suc)
qed

lemma strides_of_rowmajor: "strides_of ss = rowmajor_strides ss"
  by (simp add: strides_of_def rowmajor_strides_def foldr_conv_fold [symmetric] strides_foldr)

lemma rowmajor_strides_Nil: "rowmajor_strides [] = []"
  by (simp add: rowmajor_strides_def)

lemma rowmajor_strides_Cons: "rowmajor_strides (s # ss) = prod_list ss # rowmajor_strides ss"
proof -
  have "[0..<length (s # ss)] = 0 # map Suc [0..<length ss]"
    by (simp add: upt_conv_Cons map_Suc_upt del: upt_Suc)
  then show ?thesis by (simp add: rowmajor_strides_def comp_def del: upt_Suc)
qed

lemma length_rowmajor_strides: "length (rowmajor_strides ss) = length ss"
  by (simp add: rowmajor_strides_def)

lemma py_index_nat: "py_index xs (int k) = (if k < length xs then Inr (xs ! k) else Inl IndexError)"
  by (simp add: py_index_def)

lemma coord_loop_coord_zip_aux:
  "length pre = k \<Longrightarrow> length pre_names = k \<Longrightarrow>
   coord_loop (pre @ ss) (pre_names @ ns) cats [k..<k + length ss] r cc = coord_zip ss ns cats r cc"
proof (induction ss arbitrary: pre pre_names ns k r cc)
  case Nil
  then show ?case by simp
next
  case (Cons s ss)
  have upt: "[k..<Suc (k + length ss)] = k # [Suc k..<Suc (k + length ss)]"
    by (simp add: upt_conv_Cons del: upt_Suc)
  have ih: "\<And>n ns' r' cc'. coord_loop (pre @ s # ss) (pre_names @ n # ns') cats [Suc k..<Suc (k + length ss)] r' cc'
     = coord_zip ss ns' cats r' cc'"
    using Cons.prems Cons.IH [of "pre @ [s]" "Suc k" "pre_names @ [_]"] by simp
  show ?case
  proof (cases ns)
    case Nil
    then show ?thesis using Cons.prems
      by (simp add: upt py_index_nat nth_append del: upt_Suc)
  next
    case (Cons n ns')
    then show ?thesis using Cons.prems ih [of n ns']
      by (simp add: upt py_index_nat nth_append del: upt_Suc split: option.splits sum.splits)
  qed
qed

lemma coord_loop_coord_zip:
  "coord_loop strides names cats [0..<length strides] r cc = coord_zip strides names cats r cc"
  using coord_loop_coord_zip_aux [of "[]" 0 "[]" strides names cats r cc] by simp

subsection \<open>The loops\<close>

lemma py_index_eq:
  "py_index xs k = (if in_bounds xs k then Inr (py_select xs k) else Inl IndexError)"
  by (auto simp: py_index_def in_bounds_def py_select_def)

text \<open>
  The specification's reading of the store, observation and flat positions against the
  function's \<open>get_value_at\<close>, row construction and \<^verbatim>\<open>range\<close>.
\<close>

lemma value_at_get_value_at:
  "value_at store flat_idx = (case get_value_at store flat_idx of Inl e \<Rightarrow> None | Inr v \<Rightarrow> v)"
  by (cases store) (simp_all add: value_at_def py_index_eq split: option.splits)

lemma value_ok_get_value_at:
  "value_ok store flat_idx = (case get_value_at store flat_idx of Inl e \<Rightarrow> False | Inr v \<Rightarrow> True)"
  by (cases store) (simp_all add: value_ok_def py_index_eq split: option.splits)

lemma update_map_entries:
  "AList.update k (f v) (map (\<lambda>(k, v). (k, f v)) al) = map (\<lambda>(k, v). (k, f v)) (AList.update k v al)"
  by (induction al) auto

lemma fold_update_map_entries:
  "fold (\<lambda>(k, v) d. AList.update k v d) (map (\<lambda>(k, v). (k, f v)) xs) (map (\<lambda>(k, v). (k, f v)) acc)
     = map (\<lambda>(k, v). (k, f v)) (fold (\<lambda>(k, v) d. AList.update k v d) xs acc)"
  by (induction xs arbitrary: acc) (auto simp: update_map_entries)

lemma dict_of_map_entries:
  "dict_of (map (\<lambda>(k, v). (k, f v)) xs) = map (\<lambda>(k, v). (k, f v)) (dict_of xs)"
  using fold_update_map_entries [of f xs "[]"] by (simp add: dict_of_def)

lemma dict_of_snoc: "dict_of (xs @ [(k, v)]) = AList.update k v (dict_of xs)"
  by (simp add: dict_of_def)

lemma spec_observation_make_row:
  "spec_observation js flat_idx =
     make_row (dict_of (spec_codes js flat_idx)) (the (value_at (js_value js) flat_idx))"
  by (simp only: spec_observation_def make_row_def dict_of_snoc dict_of_map_entries)

lemma py_range_upto: "py_range n = [0..n - 1]"
proof (rule nth_equalityI)
  show "length (py_range n) = length [0..n - 1]"
    by (simp add: py_range_def)
  show "py_range n ! k = [0..n - 1] ! k" if "k < length (py_range n)" for k
    using that by (simp add: py_range_def nth_upto)
qed

lemma spec_rows_py_range:
  "spec_rows js =
     map (spec_observation js)
       (filter (\<lambda>flat_idx. value_at (js_value js) flat_idx \<noteq> None)
          (py_range (prod_list (js_size js))))"
  by (simp add: spec_rows_def present_positions_def py_range_upto)

lemma length_successive_divmod: "length (successive_divmod ss r) = length ss"
  by (induction ss arbitrary: r) simp_all

lemma coord_zip_eq:
  assumes "\<forall>n \<in> set (take (length ss) names). cats n = Some (g n)" and "0 \<notin> set ss"
  shows "coord_zip ss names cats r cc =
     (if list_all2 (\<lambda>n k. in_bounds (g n) k) (take (length ss) names) (successive_divmod ss r)
      then Inr (fold (\<lambda>(k, v) d. AList.update k v d)
                  (map2 (\<lambda>n k. (n, py_select (g n) k)) names (successive_divmod ss r)) cc)
      else Inl IndexError)"
  using assms
proof (induction ss arbitrary: names r cc)
  case Nil
  then show ?case by simp
next
  case (Cons s ss)
  show ?case
  proof (cases names)
    case Nil
    then show ?thesis using Cons.prems by simp
  next
    case (Cons n names')
    have "\<forall>n \<in> set (take (length ss) names'). cats n = Some (g n)" and "0 \<notin> set ss" and "cats n = Some (g n)" and "s \<noteq> 0"
      using Cons.prems Cons by auto
    then show ?thesis using Cons Cons.IH [of names' "r mod s" "AList.update n (py_select (g n) (r div s)) cc"]
      by (simp add: py_index_eq)
  qed
qed

lemma build_dim_categories_eq:
  "build_dim_categories (js_dimension js) names dc =
     (if list_all (\<lambda>dim_name. case js_dimension js dim_name of None \<Rightarrow> False
               | Some cat \<Rightarrow> (case resolve_categories cat of Inl e \<Rightarrow> False | Inr codes \<Rightarrow> True)) names
      then Inr (\<lambda>n. if n \<in> set names then Some (resolved js n) else dc n)
      else Inl KeyError)"
proof (induction names arbitrary: dc)
  case Nil
  then show ?case by simp
next
  case (Cons a names)
  show ?case
  proof (cases "js_dimension js a")
    case None
    then show ?thesis by simp
  next
    case (Some cat)
    show ?thesis
    proof (cases "resolve_categories cat")
      case (Inl e)
      have "lookup_all p ks = Inl e' \<Longrightarrow> e' = KeyError" for p ks e'
        by (induction ks arbitrary: e') (auto split: option.splits sum.splits)
      then have "e = KeyError" using Inl
        by (auto simp: resolve_categories_def Let_def split: if_splits)
      then show ?thesis using Some Inl by simp
    next
      case (Inr codes)
      have "(\<lambda>n. if n \<in> set names then Some (resolved js n) else (dc(a \<mapsto> codes)) n)
          = (\<lambda>n. if n \<in> set (a # names) then Some (resolved js n) else dc n)"
        using Some Inr by (auto simp: fun_eq_iff resolved_def)
      moreover have "build_dim_categories (js_dimension js) (a # names) dc
          = build_dim_categories (js_dimension js) names (dc(a \<mapsto> codes))"
        using Some Inr by simp
      ultimately show ?thesis
        unfolding Cons.IH using Some Inr by (simp del: fun_upd_apply)
    qed
  qed
qed

lemma flat_loop_Cons_observe:
  "flat_loop js st cats (i # ps) rows =
     (case observe js st cats i of
        Inl e \<Rightarrow> Inl e
      | Inr None \<Rightarrow> flat_loop js st cats ps rows
      | Inr (Some row) \<Rightarrow> flat_loop js st cats ps (rows @ [row]))"
  by (simp add: observe_def split: sum.splits option.splits)

lemma flat_loop_ok:
  "\<forall>i \<in> set ps. observe js st cats i = Inr (f i) \<Longrightarrow>
   flat_loop js st cats ps rows = Inr (rows @ map (\<lambda>i. the (f i)) (filter (\<lambda>i. f i \<noteq> None) ps))"
proof (induction ps arbitrary: rows)
  case Nil
  then show ?case by simp
next
  case (Cons i ps)
  then show ?case
    by (cases "f i") (simp_all add: flat_loop_Cons_observe del: flat_loop.simps)
qed

lemma flat_loop_fail:
  "\<forall>i \<in> set ps. observe js st cats i = Inr (f i) \<or> observe js st cats i = Inl e \<Longrightarrow>
   \<exists>i \<in> set ps. observe js st cats i = Inl e \<Longrightarrow>
   flat_loop js st cats ps rows = Inl e"
proof (induction ps arbitrary: rows)
  case Nil
  then show ?case by simp
next
  case (Cons i ps)
  show ?case
  proof (cases "observe js st cats i")
    case (Inl e')
    then show ?thesis using Cons.prems by (simp add: flat_loop_Cons_observe del: flat_loop.simps)
  next
    case (Inr r)
    then have "\<exists>i \<in> set ps. observe js st cats i = Inl e" using Cons.prems by auto
    then have ih: "flat_loop js st cats ps rows' = Inl e" for rows'
      using Cons.IH Cons.prems(1) by simp
    show ?thesis
      by (cases r) (simp_all add: flat_loop_Cons_observe Inr ih del: flat_loop.simps)
  qed
qed

lemma rowmajor_strides_nonzero: "prod_list ss \<noteq> 0 \<Longrightarrow> 0 \<notin> set (rowmajor_strides ss)"
  by (induction ss) (simp_all add: rowmajor_strides_Nil rowmajor_strides_Cons)

lemma get_value_at_error: "get_value_at store i = Inl e \<Longrightarrow> e = IndexError"
  by (cases store) (auto simp: py_index_eq split: if_splits option.splits)

lemma observe_eq:
  assumes "prod_list (js_size js) \<noteq> 0"
  shows "observe js (strides_of (js_size js)) (\<lambda>n. if n \<in> set (js_id js) then Some (resolved js n) else None) i =
     (if position_ok js i
      then Inr (if value_at (js_value js) i = None then None else Some (spec_observation js i))
      else Inl IndexError)"
proof -
  let ?cats = "\<lambda>n. if n \<in> set (js_id js) then Some (resolved js n) else None"
  have len: "[0..<length (js_size js)] = [0..<length (rowmajor_strides (js_size js))]"
    by (simp add: length_rowmajor_strides)
  have cl: "coord_loop (strides_of (js_size js)) (js_id js) ?cats [0..<length (js_size js)] i [] =
      (if coords_ok js i then Inr (dict_of (spec_codes js i)) else Inl IndexError)"
    unfolding strides_of_rowmajor len coord_loop_coord_zip
    using rowmajor_strides_nonzero [OF assms]
    by (subst coord_zip_eq [where g = "resolved js"])
       (auto simp: coords_ok_def coords_of_def length_rowmajor_strides dict_of_def spec_codes_def
             dest: in_set_takeD)
  show ?thesis
  proof (cases "get_value_at (js_value js) i")
    case (Inl e)
    then show ?thesis using get_value_at_error [OF Inl]
      by (simp add: observe_def cl position_ok_def value_ok_get_value_at)
  next
    case (Inr v)
    then show ?thesis
      by (cases v) (simp_all add: observe_def cl position_ok_def value_ok_get_value_at value_at_get_value_at spec_observation_make_row)
  qed
qed

lemma py_range_empty: "n \<le> 0 \<Longrightarrow> py_range n = []"
  by (simp add: py_range_def)

lemma decode_eq:
  "decode js =
     (if \<not> categories_ok js then Inl KeyError
      else if list_all (position_ok js) (py_range (prod_list (js_size js))) then Inr (spec_rows js)
      else Inl IndexError)"
proof (cases "categories_ok js")
  case False
  then show ?thesis
    by (simp add: decode_def build_dim_categories_eq categories_ok_def)
next
  case True
  let ?cats = "\<lambda>n. if n \<in> set (js_id js) then Some (resolved js n) else None"
  let ?ps = "py_range (prod_list (js_size js))"
  let ?f = "\<lambda>i. if value_at (js_value js) i = None then None else Some (spec_observation js i)"
  have dec: "decode js = flat_loop js (strides_of (js_size js)) ?cats ?ps []"
    using True by (simp add: decode_def build_dim_categories_eq categories_ok_def n_obs_of_prod_list)
  show ?thesis
  proof (cases "prod_list (js_size js) \<le> 0")
    case True
    then show ?thesis using \<open>categories_ok js\<close> by (simp add: dec py_range_empty spec_rows_py_range)
  next
    case False
    then have nz: "prod_list (js_size js) \<noteq> 0" by simp
    show ?thesis
    proof (cases "list_all (position_ok js) ?ps")
      case True
      then have "\<forall>i \<in> set ?ps. observe js (strides_of (js_size js)) ?cats i = Inr (?f i)"
        by (simp add: observe_eq [OF nz] list_all_iff)
      from flat_loop_ok [where f = ?f, OF this, of "[]"]
      have "decode js = Inr (map (\<lambda>i. the (?f i)) (filter (\<lambda>i. ?f i \<noteq> None) ?ps))"
        by (simp add: dec)
      also have "map (\<lambda>i. the (?f i)) (filter (\<lambda>i. ?f i \<noteq> None) ?ps) = spec_rows js"
        unfolding spec_rows_py_range by (rule map_cong) (auto cong: filter_cong)
      finally show ?thesis using True \<open>categories_ok js\<close> by simp
    next
      case False
      have a: "\<forall>i \<in> set ?ps. observe js (strides_of (js_size js)) ?cats i = Inr (?f i)
               \<or> observe js (strides_of (js_size js)) ?cats i = Inl IndexError"
        by (simp add: observe_eq [OF nz])
      have b: "\<exists>i \<in> set ?ps. observe js (strides_of (js_size js)) ?cats i = Inl IndexError"
        using False by (auto simp: observe_eq [OF nz] list_all_iff)
      from flat_loop_fail [where f = ?f, OF a b, of "[]"]
      show ?thesis using False \<open>categories_ok js\<close> by (simp add: dec)
    qed
  qed
qed

subsection \<open>Well-formed cubes decode\<close>

lemma coords_in_bounds:
  "list_all2 (\<lambda>n s. 0 < s \<and> int (length (g n)) = s) names sizes \<Longrightarrow> 0 \<le> i \<Longrightarrow> i < prod_list sizes \<Longrightarrow>
   list_all2 (\<lambda>n k. in_bounds (g n) k) names (successive_divmod (rowmajor_strides sizes) i)"
proof (induction names sizes arbitrary: i rule: list_all2_induct)
  case Nil
  then show ?case by (simp add: rowmajor_strides_Nil)
next
  case (Cons n names s sizes)
  have pos: "0 < prod_list sizes"
  proof -
    have "0 < s * prod_list sizes" using Cons.prems by simp
    then show ?thesis using Cons.hyps(1) by (simp add: zero_less_mult_iff)
  qed
  have "i div prod_list sizes < s"
  proof (rule ccontr)
    assume "\<not> i div prod_list sizes < s"
    then have "prod_list sizes * s \<le> prod_list sizes * (i div prod_list sizes)"
      using pos by (simp add: mult_left_mono)
    also have "\<dots> \<le> i"
    proof -
      have "prod_list sizes * (i div prod_list sizes) + i mod prod_list sizes = i" by simp
      moreover have "0 \<le> i mod prod_list sizes" using pos by simp
      ultimately show ?thesis by linarith
    qed
    finally show False using Cons.prems by (simp add: mult.commute)
  qed
  moreover have "0 \<le> i div prod_list sizes"
    using Cons.prems pos by (simp add: pos_imp_zdiv_nonneg_iff)
  moreover have "list_all2 (\<lambda>n k. in_bounds (g n) k) names
       (successive_divmod (rowmajor_strides sizes) (i mod prod_list sizes))"
    using pos by (intro Cons.IH) simp_all
  ultimately show ?case using Cons.hyps(1)
    by (simp add: rowmajor_strides_Cons in_bounds_def)
qed

lemma well_formed_dims_coords_ok:
  assumes "well_formed_dims js" and "i \<in> set (py_range (prod_list (js_size js)))"
  shows "coords_ok js i"
proof -
  have l2: "list_all2 (\<lambda>n s. 0 < s \<and> int (length (resolved js n)) = s) (js_id js) (js_size js)"
    using assms(1) by (simp add: well_formed_dims_def)
  then have "length (js_id js) = length (js_size js)" by (rule list_all2_lengthD)
  moreover have "0 \<le> i" "i < prod_list (js_size js)"
    using assms(2) by (auto simp: py_range_def)
  ultimately show ?thesis
    using coords_in_bounds [OF l2, of i] by (simp add: coords_ok_def coords_of_def)
qed

subsection \<open>Counting the observations\<close>

lemma of_char_digit_char: "d < 10 \<Longrightarrow> (of_char (digit_char d) :: nat) = 48 + d"
proof -
  assume "d < 10"
  then have "d \<in> {0, 1, 2, 3, 4, 5, 6, 7, 8, 9}" by auto
  then show ?thesis by (auto simp: digit_char_def)
qed

lemma str_nat_value: "foldl (\<lambda>a c. 10 * a + (of_char c - 48)) 0 (str_nat n) = n"
proof (induction n rule: str_nat.induct)
  case (1 n)
  show ?case
  proof (cases "n < 10")
    case True
    then show ?thesis by (simp add: str_nat.simps [of n] of_char_digit_char)
  next
    case False
    then show ?thesis using 1 by (simp add: str_nat.simps [of n] of_char_digit_char)
  qed
qed

lemma str_nat_inj: "str_nat a = str_nat b \<Longrightarrow> a = b"
  by (metis str_nat_value)

lemma inj_on_str_py_range: "inj_on str (set (py_range n))"
  by (auto simp: inj_on_def py_range_def str_def dest: str_nat_inj)

lemma distinct_py_range: "distinct (py_range n)"
  by (simp add: py_range_def distinct_map inj_on_def)

lemma set_py_range: "set (py_range n) = {i. 0 \<le> i \<and> i < n}"
proof -
  have "i \<in> int ` {0..<nat n}" if "0 \<le> i" "i < n" for i
    using that by (intro image_eqI [where x = "nat i"]) auto
  then show ?thesis by (auto simp: py_range_def)
qed

lemma length_spec_rows:
  "length (spec_rows js) =
     card {i. 0 \<le> i \<and> i < prod_list (js_size js) \<and> value_at (js_value js) i \<noteq> None}"
proof -
  have "{i. value_at (js_value js) i \<noteq> None} \<inter> set (py_range (prod_list (js_size js)))
      = {i. 0 \<le> i \<and> i < prod_list (js_size js) \<and> value_at (js_value js) i \<noteq> None}"
    by (auto simp: set_py_range)
  then show ?thesis
    by (simp add: spec_rows_py_range distinct_length_filter [OF distinct_py_range])
qed

lemma length_spec_rows_le: "int (length (spec_rows js)) \<le> max 0 (prod_list (js_size js))"
proof -
  have "length (spec_rows js) \<le> length (py_range (prod_list (js_size js)))"
    unfolding spec_rows_py_range length_map by (rule length_filter_le)
  then show ?thesis by (simp add: py_range_def)
qed

lemma length_spec_rows_dense:
  assumes "js_value js = Dense vs" and "int (length vs) = prod_list (js_size js)"
  shows "length (spec_rows js) = length (filter (\<lambda>v. v \<noteq> None) vs)"
proof -
  have pr: "py_range (prod_list (js_size js)) = map int [0..<length vs]"
    using assms(2) [symmetric] by (simp add: py_range_def)
  have "filter (\<lambda>i. value_at (Dense vs) i \<noteq> None) (map int [0..<length vs])
      = map int (filter (\<lambda>k. vs ! k \<noteq> None) [0..<length vs])"
    by (auto simp: filter_map comp_def value_at_get_value_at py_index_def intro: filter_cong)
  moreover have "filter (\<lambda>v. v \<noteq> None) vs = map (nth vs) (filter (\<lambda>k. vs ! k \<noteq> None) [0..<length vs])"
  proof -
    have "filter (\<lambda>v. v \<noteq> None) vs = filter (\<lambda>v. v \<noteq> None) (map (nth vs) [0..<length vs])"
      by (simp add: map_nth)
    then show ?thesis by (simp add: filter_map comp_def)
  qed
  ultimately show ?thesis by (simp add: spec_rows_py_range assms(1) pr)
qed

lemma length_spec_rows_sparse:
  assumes "js_value js = Sparse m"
    and "dom m \<subseteq> str ` set (py_range (prod_list (js_size js)))"
    and "\<forall>k \<in> dom m. m k \<noteq> Some None"
  shows "length (spec_rows js) = card (dom m)"
proof -
  let ?ps = "py_range (prod_list (js_size js))"
  have present: "value_at (Sparse m) i \<noteq> None \<longleftrightarrow> str i \<in> dom m" for i
  proof (cases "m (str i)")
    case None
    then show ?thesis by (simp add: value_at_get_value_at dom_def)
  next
    case (Some v)
    then have "v \<noteq> None" using assms(3) by (auto simp: dom_def)
    then show ?thesis using Some by (auto simp: value_at_get_value_at dom_def)
  qed
  have "filter (\<lambda>i. value_at (Sparse m) i \<noteq> None) ?ps = filter (\<lambda>i. str i \<in> dom m) ?ps"
    by (simp only: present)
  then have "length (spec_rows js) = card ({i. str i \<in> dom m} \<inter> set ?ps)"
    by (simp add: spec_rows_py_range assms(1) distinct_length_filter [OF distinct_py_range])
  also have "\<dots> = card (str ` ({i. str i \<in> dom m} \<inter> set ?ps))"
  proof -
    have "inj_on str ({i. str i \<in> dom m} \<inter> set ?ps)"
      by (rule inj_on_subset [OF inj_on_str_py_range [of "prod_list (js_size js)"]]) blast
    then show ?thesis by (simp add: card_image)
  qed
  also have "str ` ({i. str i \<in> dom m} \<inter> set ?ps) = dom m"
  proof -
    have "f ` ({i. f i \<in> A} \<inter> S) = A" if "A \<subseteq> f ` S" for f :: "int \<Rightarrow> string" and A S
      using that by blast
    then show ?thesis using assms(2) by simp
  qed
  finally show ?thesis .
qed


lemma prod_list_positive: "\<forall>s \<in> set ss. 0 < s \<Longrightarrow> 0 < prod_list ss" for ss :: "int list"
  by (induction ss) simp_all

lemma value_cell_spec_observation:
  "map_of (spec_observation js i) ''value'' = Some (Val (the (value_at (js_value js) i)))"
  by (simp add: spec_observation_make_row make_row_def update_conv')

lemma well_formed_decode:
  assumes "well_formed js"
  shows "decode js = Inr (spec_rows js)"
proof -
  have dims: "well_formed_dims js" using assms by (simp add: well_formed_def)
  have "position_ok js i" if "i \<in> set (py_range (prod_list (js_size js)))" for i
  proof -
    have "value_ok (js_value js) i"
      using assms that
      by (cases "js_value js")
         (auto simp: well_formed_def value_ok_get_value_at py_index_eq in_bounds_def set_py_range split: option.splits)
    then show ?thesis using well_formed_dims_coords_ok [OF dims that] by (simp add: position_ok_def)
  qed
  then show ?thesis using dims by (simp add: decode_eq well_formed_dims_def list_all_iff)
qed

subsection \<open>The value store is read at the flat positions only\<close>

lemma decode_store_cong:
  assumes "\<forall>i \<in> set (py_range (prod_list (js_size js))). get_value_at st i = get_value_at (js_value js) i"
  shows "decode (js\<lparr>js_value := st\<rparr>) = decode js"
proof -
  let ?js' = "js\<lparr>js_value := st\<rparr>"
  let ?ps = "py_range (prod_list (js_size js))"
  have cats: "categories_ok ?js' = categories_ok js"
    by (simp add: categories_ok_def)
  have pos: "position_ok ?js' i = position_ok js i" if "i \<in> set ?ps" for i
    using assms that
    by (simp add: position_ok_def coords_ok_def coords_of_def resolved_def value_ok_get_value_at)
  have obs: "spec_observation ?js' i = spec_observation js i" if "i \<in> set ?ps" for i
    using assms that
    by (simp add: spec_observation_make_row spec_codes_def coords_of_def resolved_def value_at_get_value_at)
  have filt: "filter (\<lambda>i. value_at st i \<noteq> None) ?ps = filter (\<lambda>i. value_at (js_value js) i \<noteq> None) ?ps"
    using assms by (intro filter_cong) (simp_all add: value_at_get_value_at)
  have rows: "spec_rows ?js' = spec_rows js"
  proof -
    have "spec_rows ?js' = map (spec_observation ?js') (filter (\<lambda>i. value_at (js_value js) i \<noteq> None) ?ps)"
      unfolding spec_rows_py_range using filt by simp
    also have "\<dots> = spec_rows js"
      unfolding spec_rows_py_range by (rule map_cong) (simp_all add: obs)
    finally show ?thesis .
  qed
  have "list_all (position_ok ?js') ?ps = list_all (position_ok js) ?ps"
    using pos by (simp add: list_all_iff)
  then show ?thesis by (simp add: decode_eq cats rows)
qed

lemma well_formed_dims_decode:
  assumes "well_formed_dims js"
  shows "decode js =
     (if list_all (value_ok (js_value js)) (py_range (prod_list (js_size js)))
      then Inr (spec_rows js) else Inl IndexError)"
proof -
  have "list_all (position_ok js) (py_range (prod_list (js_size js)))
      = list_all (value_ok (js_value js)) (py_range (prod_list (js_size js)))"
    using well_formed_dims_coords_ok [OF assms] by (auto simp: list_all_iff position_ok_def)
  then show ?thesis using assms by (simp add: decode_eq well_formed_dims_def)
qed

subsection \<open>Removing a dimension of size 1\<close>

lemma map_result_simps [simp]:
  "map_result f (Inl e) = Inl e" "map_result f (Inr x) = Inr (f x)"
  by (simp_all add: map_result_def)

lemma coord_zip_delete:
  "x \<notin> set names \<Longrightarrow>
   map_result (AList.delete x) (coord_zip ss names cats r cc) = coord_zip ss names cats r (AList.delete x cc)"
proof (induction ss arbitrary: names r cc)
  case Nil
  then show ?case by simp
next
  case (Cons s ss)
  show ?case
  proof (cases names)
    case Nil
    then show ?thesis by simp
  next
    case (Cons n names')
    then have "n \<noteq> x" "x \<notin> set names'" using Cons.prems by auto
    then show ?thesis using Cons Cons.IH [of names']
      by (simp add: delete_update split: option.splits sum.splits)
  qed
qed

lemma coord_zip_cong_cats:
  "\<forall>n \<in> set names. cats n = cats' n \<Longrightarrow>
   coord_zip ss names cats r cc = coord_zip ss names cats' r cc"
proof (induction ss arbitrary: names r cc)
  case Nil
  then show ?case by simp
next
  case (Cons s ss)
  show ?case
  proof (cases names)
    case Nil
    then show ?thesis by simp
  next
    case (Cons n names')
    then show ?thesis using Cons.prems Cons.IH [of names']
      by (simp split: option.splits sum.splits)
  qed
qed

lemma coord_zip_skip:
  assumes "length P = length npre" and "x \<notin> set npre" and "x \<notin> set npost"
    and "s \<noteq> 0" and "cats x = Some [m]"
    and "fold (\<lambda>p r. r mod p) P r div s = 0"
  shows "map_result (AList.delete x) (coord_zip (P @ s # R) (npre @ x # npost) cats r cc)
       = coord_zip (P @ R) (npre @ npost) cats r (AList.delete x cc)"
  using assms(1,2,6)
proof (induction P arbitrary: npre r cc)
  case Nil
  then have d: "r div s = 0" and npre: "npre = []" by simp_all
  have "r mod s = r"
    using mult_div_mod_eq [of s r] d by simp
  then show ?case
    using npre d assms(3,4,5) coord_zip_delete [of x npost R cats r "AList.update x m cc"]
    by (simp add: py_index_def delete_update_same)
next
  case (Cons p P)
  then obtain n npre' where npre: "npre = n # npre'" by (cases npre) auto
  then have "n \<noteq> x" "x \<notin> set npre'" "length P = length npre'"
    using Cons.prems by auto
  then show ?case
    using npre Cons.prems(3) Cons.IH [of npre' "r mod p"]
    by (simp add: delete_update split: option.splits sum.splits)
qed

lemma rowmajor_strides_append:
  "rowmajor_strides (xs @ ys) = map (\<lambda>s. s * prod_list ys) (rowmajor_strides xs) @ rowmajor_strides ys"
  by (induction xs) (simp_all add: rowmajor_strides_Nil rowmajor_strides_Cons)

lemma last_rowmajor_strides: "xs \<noteq> [] \<Longrightarrow> last (rowmajor_strides xs) = 1"
proof (induction xs)
  case Nil
  then show ?case by simp
next
  case (Cons a xs)
  then show ?case
    by (cases xs) (simp_all add: rowmajor_strides_Nil rowmajor_strides_Cons)
qed

lemma fold_mod_last:
  assumes "P \<noteq> []" and "last P = s" and "s \<noteq> 0"
  shows "fold (\<lambda>p r. r mod p) P r div s = (0::int)"
proof -
  have "P = butlast P @ [s]" using assms(1,2) by (metis append_butlast_last_id)
  then have "fold (\<lambda>p r. r mod p) P r = fold (\<lambda>p r. r mod p) (butlast P) r mod s"
    by (metis fold_append fold_simps comp_apply)
  then show ?thesis using assms(3) by simp
qed

lemma coord_loop_strides_of:
  "coord_loop (strides_of ss) names cats [0..<length ss] r cc
     = coord_zip (rowmajor_strides ss) names cats r cc"
proof -
  have "[0..<length ss] = [0..<length (rowmajor_strides ss)]"
    by (simp add: length_rowmajor_strides)
  then show ?thesis
    unfolding strides_of_rowmajor by (simp only: coord_loop_coord_zip)
qed

lemma delete_make_row:
  fixes v :: 'v
  assumes "x \<noteq> ''value''"
  shows "AList.delete x (make_row cc v) = make_row (AList.delete x cc) v"
proof -
  have "AList.delete x (map (\<lambda>(n, c). (n, Code c :: 'v cell)) cc)
      = map (\<lambda>(n, c). (n, Code c)) (AList.delete x cc)"
    by (induction cc) auto
  then show ?thesis
    using assms by (simp add: make_row_def delete_update)
qed

lemma flat_loop_delete:
  "\<forall>i \<in> set ps. observe js' st' cats' i = map_result (map_option (AList.delete x)) (observe js st cats i) \<Longrightarrow>
   flat_loop js' st' cats' ps (map (AList.delete x) rows)
     = map_result (map (AList.delete x)) (flat_loop js st cats ps rows)"
proof (induction ps arbitrary: rows)
  case Nil
  then show ?case by simp
next
  case (Cons i ps)
  have ih: "flat_loop js' st' cats' ps (map (AList.delete x) rows')
     = map_result (map (AList.delete x)) (flat_loop js st cats ps rows')" for rows'
    using Cons by simp
  have o: "observe js' st' cats' i = map_result (map_option (AList.delete x)) (observe js st cats i)"
    using Cons.prems by simp
  show ?case
  proof (cases "observe js st cats i")
    case (Inl e)
    then show ?thesis using o by (simp add: flat_loop_Cons_observe del: flat_loop.simps)
  next
    case (Inr r)
    show ?thesis
    proof (cases r)
      case None
      then show ?thesis using o Inr ih by (simp add: flat_loop_Cons_observe del: flat_loop.simps)
    next
      case (Some row)
      then show ?thesis using o Inr ih [of "rows @ [row]"]
        by (simp add: flat_loop_Cons_observe del: flat_loop.simps)
    qed
  qed
qed


lemma no_categories_resolve: "no_categories cat \<Longrightarrow> resolve_categories cat = Inr [''_missing_'']"
  by (cases cat) (simp_all add: no_categories_def resolve_categories_def pos_to_code_of_def)

lemma resolved_drop_dimension: "resolved (drop_dimension k js) n = resolved js n"
  by (simp add: resolved_def drop_dimension_def)

lemma observe_drop_dimension:
  fixes js :: "'v cube"
  assumes k: "k < length (js_id js)" "k < length (js_size js)"
    and size1: "js_size js ! k = 1"
    and x: "x = js_id js ! k"
    and fresh: "x \<notin> set (js_id (drop_dimension k js))" "x \<noteq> ''value''"
    and res: "resolved js x = [m]"
    and i: "i \<in> set (py_range (prod_list (js_size js)))"
  shows "observe (drop_dimension k js) (strides_of (js_size (drop_dimension k js)))
           (\<lambda>n. if n \<in> set (js_id (drop_dimension k js)) then Some (resolved js n) else None) i
       = map_result (map_option (AList.delete x))
           (observe js (strides_of (js_size js))
              (\<lambda>n. if n \<in> set (js_id js) then Some (resolved js n) else None) i)"
proof -
  let ?js' = "drop_dimension k js"
  let ?npre = "take k (js_id js)" and ?npost = "drop (Suc k) (js_id js)"
  let ?pre = "take k (js_size js)" and ?post = "drop (Suc k) (js_size js)"
  let ?cats = "\<lambda>n. if n \<in> set (js_id js) then Some (resolved js n) else None"
  let ?cats' = "\<lambda>n. if n \<in> set (js_id ?js') then Some (resolved js n) else None"
  let ?s = "prod_list ?post"
  let ?P = "map (\<lambda>q. q * ?s) (rowmajor_strides ?pre)"
  let ?R = "rowmajor_strides ?post"
  have ids: "js_id js = ?npre @ x # ?npost"
    using k(1) x by (simp add: id_take_nth_drop [symmetric])
  have sizes: "js_size js = ?pre @ 1 # ?post"
    using k(2) size1 id_take_nth_drop [of k "js_size js"] by simp
  have ids': "js_id ?js' = ?npre @ ?npost" and sizes': "js_size ?js' = ?pre @ ?post"
    and val': "js_value ?js' = js_value js"
    by (simp_all add: drop_dimension_def)
  have prod: "prod_list (js_size js) = prod_list ?pre * ?s"
    by (subst sizes) simp
  have range: "0 \<le> i" "i < prod_list (js_size js)"
    using i by (simp_all add: set_py_range)
  then have s0: "?s \<noteq> 0" using prod by auto
  have st: "rowmajor_strides (js_size js) = ?P @ ?s # ?R"
    by (subst sizes) (simp add: rowmajor_strides_append rowmajor_strides_Cons)
  have st': "rowmajor_strides (js_size ?js') = ?P @ ?R"
    by (simp add: sizes' rowmajor_strides_append)
  have lenP: "length ?P = length ?npre"
    using k by (simp add: length_rowmajor_strides)
  have zero: "fold (\<lambda>p r. r mod p) ?P i div ?s = 0"
  proof (cases "?pre = []")
    case True
    have "prod_list (js_size js) = ?s" unfolding prod True by simp
    then have "i div ?s = 0" using range by simp
    then show ?thesis unfolding True by (simp add: rowmajor_strides_Nil)
  next
    case False
    then have "rowmajor_strides ?pre \<noteq> []"
      by (metis length_rowmajor_strides length_0_conv)
    then have "?P \<noteq> []" and "last ?P = ?s"
      using last_rowmajor_strides [OF False] by (simp_all add: last_map)
    then show ?thesis using s0 by (rule fold_mod_last)
  qed
  have xn: "x \<notin> set ?npre" "x \<notin> set ?npost"
    using fresh(1) by (simp_all add: ids')
  have catsx: "?cats x = Some [m]"
  proof -
    have "x \<in> set (js_id js)" by (subst ids) simp
    then show ?thesis using res by simp
  qed
  have agree: "\<forall>n \<in> set (?npre @ ?npost). ?cats' n = ?cats n"
  proof
    fix n assume n: "n \<in> set (?npre @ ?npost)"
    then have "n \<in> set (js_id ?js')" by (simp add: ids')
    moreover have "n \<in> set (js_id js)" using n by (subst ids) auto
    ultimately show "?cats' n = ?cats n" by simp
  qed
  have coord: "coord_loop (strides_of (js_size ?js')) (js_id ?js') ?cats' [0..<length (js_size ?js')] i []
      = map_result (AList.delete x)
          (coord_loop (strides_of (js_size js)) (js_id js) ?cats [0..<length (js_size js)] i [])"
  proof -
    have "coord_loop (strides_of (js_size ?js')) (js_id ?js') ?cats' [0..<length (js_size ?js')] i []
        = coord_zip (?P @ ?R) (?npre @ ?npost) ?cats' i []"
      by (simp only: coord_loop_strides_of st' ids')
    also have "\<dots> = coord_zip (?P @ ?R) (?npre @ ?npost) ?cats i []"
      using agree by (rule coord_zip_cong_cats)
    also have "\<dots> = map_result (AList.delete x)
          (coord_zip (?P @ ?s # ?R) (?npre @ x # ?npost) ?cats i [])"
    proof -
      have "map_result (AList.delete x) (coord_zip (?P @ ?s # ?R) (?npre @ x # ?npost) ?cats i [])
          = coord_zip (?P @ ?R) (?npre @ ?npost) ?cats i (AList.delete x [])"
        using lenP xn s0 catsx zero by (rule coord_zip_skip)
      then show ?thesis by simp
    qed
    also have "coord_zip (?P @ ?s # ?R) (?npre @ x # ?npost) ?cats i []
        = coord_loop (strides_of (js_size js)) (js_id js) ?cats [0..<length (js_size js)] i []"
      unfolding coord_loop_strides_of st using ids by simp
    finally show ?thesis .
  qed
  show ?thesis
    unfolding observe_def coord val'
    by (cases "coord_loop (strides_of (js_size js)) (js_id js) ?cats [0..<length (js_size js)] i []")
       (simp_all add: delete_make_row [OF fresh(2)] split: sum.splits option.splits)
qed


lemma decode_flat_loop:
  "decode js =
     (if categories_ok js
      then flat_loop js (strides_of (js_size js))
             (\<lambda>n. if n \<in> set (js_id js) then Some (resolved js n) else None)
             (py_range (prod_list (js_size js))) []
      else Inl KeyError)"
  by (simp add: decode_def build_dim_categories_eq categories_ok_def n_obs_of_prod_list)

lemma decode_drop_dimension:
  fixes js :: "'v cube"
  assumes k: "k < length (js_id js)" "k < length (js_size js)"
    and size1: "js_size js ! k = 1"
    and dim: "js_dimension js (js_id js ! k) = Some cat" "no_categories cat"
    and fresh: "js_id js ! k \<notin> set (js_id (drop_dimension k js))" "js_id js ! k \<noteq> ''value''"
  shows "decode (drop_dimension k js) = map_result (map (AList.delete (js_id js ! k))) (decode js)"
proof -
  let ?x = "js_id js ! k"
  let ?js' = "drop_dimension k js"
  let ?ok = "\<lambda>dim_name. case js_dimension js dim_name of None \<Rightarrow> False
      | Some cat \<Rightarrow> (case resolve_categories cat of Inl e \<Rightarrow> False | Inr codes \<Rightarrow> True)"
  have res: "resolved js ?x = [''_missing_'']"
    using dim by (simp add: resolved_def no_categories_resolve)
  have ids: "js_id js = take k (js_id js) @ ?x # drop (Suc k) (js_id js)"
    using k(1) by (simp add: id_take_nth_drop [symmetric])
  have sizes: "js_size js = take k (js_size js) @ 1 # drop (Suc k) (js_size js)"
    using k(2) size1 id_take_nth_drop [of k "js_size js"] by simp
  have "?ok ?x" using dim by (simp add: no_categories_resolve)
  then have "list_all ?ok (js_id js) = list_all ?ok (js_id ?js')"
    by (subst ids) (simp add: drop_dimension_def)
  then have cats: "categories_ok ?js' = categories_ok js"
    by (simp add: categories_ok_def drop_dimension_def)
  have prod: "prod_list (js_size ?js') = prod_list (js_size js)"
  proof -
    have "prod_list (js_size js)
        = prod_list (take k (js_size js) @ 1 # drop (Suc k) (js_size js))"
      using sizes by simp
    then show ?thesis by (simp add: drop_dimension_def)
  qed
  have obs: "\<forall>i \<in> set (py_range (prod_list (js_size js))).
      observe ?js' (strides_of (js_size ?js'))
        (\<lambda>n. if n \<in> set (js_id ?js') then Some (resolved js n) else None) i
      = map_result (map_option (AList.delete ?x))
          (observe js (strides_of (js_size js))
             (\<lambda>n. if n \<in> set (js_id js) then Some (resolved js n) else None) i)"
    using observe_drop_dimension [OF k size1 refl fresh res] by blast
  show ?thesis
  proof (cases "categories_ok js")
    case False
    then show ?thesis using cats by (simp add: decode_flat_loop)
  next
    case True
    then show ?thesis
      using cats flat_loop_delete [OF obs, of "[]"]
      by (simp add: decode_flat_loop prod resolved_drop_dimension cong: if_cong)
  qed
qed

lemma map_of_fold_update:
  "map_of (fold (\<lambda>(k, v) d. AList.update k v d) pairs d) = map_of (rev pairs @ d)"
  by (induction pairs arbitrary: d) (auto simp: update_conv' fun_eq_iff map_add_def split: option.splits)

lemma map_of_make_row:
  "x \<noteq> ''value'' \<Longrightarrow> map_of (make_row cc v) x = map_option Code (map_of cc x)"
  by (simp add: make_row_def update_conv' map_of_map)

lemma placeholder_code:
  fixes js :: "'v cube"
  assumes k: "k < length (js_id js)" "k < length (js_size js)"
    and res: "resolved js (js_id js ! k) = [c]"
    and nv: "js_id js ! k \<noteq> ''value''"
    and dec: "decode js = Inr rows" and row: "row \<in> set rows"
  shows "map_of row (js_id js ! k) = Some (Code c)"
proof -
  let ?x = "js_id js ! k"
  let ?ps = "py_range (prod_list (js_size js))"
  have ok: "list_all (position_ok js) ?ps" and rows: "rows = spec_rows js"
    using dec by (auto simp: decode_eq split: if_splits)
  obtain i where i: "i \<in> set ?ps" "row = spec_observation js i"
    using row rows by (auto simp: spec_rows_py_range)
  have cok: "list_all2 (\<lambda>n k. in_bounds (resolved js n) k)
      (take (length (js_size js)) (js_id js)) (coords_of js i)"
    using ok i(1) by (auto simp: list_all_iff position_ok_def coords_ok_def)
  have len: "length (coords_of js i) = length (js_size js)"
    by (simp add: coords_of_def length_successive_divmod length_rowmajor_strides)
  let ?pairs = "spec_codes js i"
  have all: "c' = c" if "(?x, c') \<in> set ?pairs" for c'
  proof -
    from that obtain j where j: "j < length (js_id js)" "j < length (coords_of js i)"
        "js_id js ! j = ?x" "c' = py_select (resolved js ?x) (coords_of js i ! j)"
      by (auto simp: spec_codes_def set_zip)
    have "j < length (take (length (js_size js)) (js_id js))"
      using j(1,2) len by simp
    with cok have "in_bounds (resolved js (take (length (js_size js)) (js_id js) ! j)) (coords_of js i ! j)"
      by (rule list_all2_nthD)
    then have "in_bounds [c] (coords_of js i ! j)"
      using j len res by simp
    then show ?thesis using j(4) res by (auto simp: in_bounds_def py_select_def)
  qed
  have ex: "(?x, py_select (resolved js ?x) (coords_of js i ! k)) \<in> set ?pairs"
    using k len by (auto simp: spec_codes_def set_zip intro!: exI [where x = k])
  then obtain c' where c': "map_of (rev ?pairs) ?x = Some c'"
    by (metis weak_map_of_SomeI set_rev)
  then have "(?x, c') \<in> set ?pairs"
    by (metis map_of_SomeD set_rev)
  then have "map_of (rev ?pairs) ?x = Some c" using all c' by simp
  then show ?thesis
    using nv by (simp add: i(2) spec_observation_make_row map_of_make_row dict_of_def map_of_fold_update)
qed

subsection \<open>The function on a store\<close>

lemma as_st_simps [simp]: "as_st (Inl e) = Inl (Py e)" "as_st (Inr x) = Inr x"
  by (simp_all add: as_st_def)

lemma extends_refl: "extends h h"
  by (simp add: extends_def)

lemma extends_trans: "extends h0 h1 \<Longrightarrow> extends h1 h2 \<Longrightarrow> extends h0 h2"
  by (auto simp: extends_def)

lemma extends_append: "extends h0 h \<Longrightarrow> extends h0 (h @ [obj])"
  by (auto simp: extends_def nth_append)

lemma extends_update: "extends h0 h \<Longrightarrow> length h0 \<le> a \<Longrightarrow> extends h0 (h[a := obj])"
  by (auto simp: extends_def)

lemma extends_length: "extends h0 h \<Longrightarrow> length h0 \<le> length h"
  by (simp add: extends_def)

lemma obj_at_extends: "extends h0 h \<Longrightarrow> obj_at h0 v = Some obj \<Longrightarrow> obj_at h v = Some obj"
  by (cases v) (auto simp: obj_at_def extends_def split: if_splits)

lemma obj_at_Ref: "a < length h \<Longrightarrow> obj_at h (PRef a) = Some (h ! a)"
  by (simp add: obj_at_def)

lemma length_dict_setitem [simp]: "length (dict_setitem a k v h) = length h"
  by (simp add: dict_setitem_def split: pyobj.splits)

lemma nth_dict_setitem_other: "b \<noteq> a \<Longrightarrow> dict_setitem a k v h ! b = h ! b"
  by (simp add: dict_setitem_def split: pyobj.splits)

lemma nth_dict_setitem_same:
  "a < length h \<Longrightarrow> h ! a = PDict kvs \<Longrightarrow> dict_setitem a k v h ! a = PDict (AList.update k v kvs)"
  by (simp add: dict_setitem_def)

lemma extends_dict_setitem: "extends h0 h \<Longrightarrow> length h0 \<le> a \<Longrightarrow> extends h0 (dict_setitem a k v h)"
  by (auto simp: extends_def nth_dict_setitem_other)

lemma map_update_inj:
  assumes "inj f"
  shows "map (\<lambda>(k, v). (f k, g v)) (AList.update k v al) = AList.update (f k) (g v) (map (\<lambda>(k, v). (f k, g v)) al)"
  using assms by (induction al) (auto simp: inj_def)

lemma map_of_map_inj:
  assumes "inj f"
  shows "map_of (map (\<lambda>(k, v). (f k, g v)) al) (f k) = map_option g (map_of al k)"
  using assms by (induction al) (auto simp: inj_def)

lemma inj_PStr: "inj PStr" and inj_PInt: "inj PInt"
  by (simp_all add: inj_def)

lemma fold_update_enc:
  "fold (\<lambda>(code, pos) d. AList.update pos code d)
     (map (\<lambda>(code, pos). (PStr code, PInt pos)) ix)
     (map (\<lambda>(pos, code). (PInt pos, PStr code)) d0)
   = map (\<lambda>(pos, code). (PInt pos, PStr code)) (fold (\<lambda>(code, pos) d. AList.update pos code d) ix d0)"
  by (induction ix arbitrary: d0) (auto simp: map_update_inj [OF inj_PInt, symmetric])

lemma pos_to_code_enc:
  "fold (\<lambda>(code, pos) d. AList.update pos code d) (map (\<lambda>(code, pos). (PStr code, PInt pos)) ix) []
   = map (\<lambda>(pos, code). (PInt pos, PStr code)) (pos_to_code_of ix)"
  using fold_update_enc [of ix "[]"] by (simp add: pos_to_code_of_def)

lemma ints_of_enc: "ints_of (map fst (map (\<lambda>(pos, code). (PInt pos, PStr code)) p)) = Inr (map fst p)"
  by (induction p) (auto simp: int_of_def)

lemma lookup_all_st_enc:
  "lookup_all_st (map (\<lambda>(pos, code). (PInt pos, PStr code)) p) ks
     = as_st (map_result (map PStr) (lookup_all p ks))"
  by (induction ks) (auto simp: map_of_map_inj [OF inj_PInt] split: option.splits sum.splits)

lemma dc_rep_setitem:
  assumes "dc_rep h dc cats" and "extends h h3"
    and "length h \<le> a" and "a < length h3" and "h3 ! a = PList (map PStr codes)"
  shows "dc_rep (dict_setitem dc (PStr dim_name) (PRef a) h3) dc (cats(dim_name \<mapsto> codes))"
proof -
  from assms(1) obtain kvs where dc: "dc < length h" and kvs: "h ! dc = PDict kvs"
    and reps: "\<And>n. case cats n of
             None \<Rightarrow> map_of kvs (PStr n) = None
           | Some cs \<Rightarrow> (\<exists>b. map_of kvs (PStr n) = Some (PRef b) \<and> dc < b \<and> b < length h \<and>
                  h ! b = PList (map PStr cs))"
    by (auto simp: dc_rep_def)
  let ?h = "dict_setitem dc (PStr dim_name) (PRef a) h3"
  have dc3: "dc < length h3" "h3 ! dc = PDict kvs"
    using assms(2) dc kvs by (auto simp: extends_def)
  have at_dc: "?h ! dc = PDict (AList.update (PStr dim_name) (PRef a) kvs)"
    using dc3 by (rule nth_dict_setitem_same)
  have "case (cats(dim_name \<mapsto> codes)) n of
          None \<Rightarrow> map_of (AList.update (PStr dim_name) (PRef a) kvs) (PStr n) = None
        | Some cs \<Rightarrow> (\<exists>b. map_of (AList.update (PStr dim_name) (PRef a) kvs) (PStr n) = Some (PRef b)
              \<and> dc < b \<and> b < length ?h \<and> ?h ! b = PList (map PStr cs))" for n
  proof (cases "n = dim_name")
    case True
    then show ?thesis
      using assms(3,4,5) dc by (simp add: update_conv' nth_dict_setitem_other)
  next
    case False
    show ?thesis
    proof (cases "cats n")
      case None
      then show ?thesis using reps [of n] False by (simp add: update_conv')
    next
      case (Some cs)
      then obtain b where b: "map_of kvs (PStr n) = Some (PRef b)" "dc < b" "b < length h"
          "h ! b = PList (map PStr cs)"
        using reps [of n] by auto
      then have "?h ! b = PList (map PStr cs)" "b < length ?h"
        using assms(2) by (auto simp: nth_dict_setitem_other extends_def)
      then show ?thesis using Some False b by (auto simp: update_conv')
    qed
  qed
  then show ?thesis
    unfolding dc_rep_def using dc3(1) at_dc by auto
qed

lemma build_st_correct:
  assumes "extends h0 h" and "length h0 \<le> dc" and "is_dimension h0 dim dm" and "dc_rep h dc cats"
  shows "\<exists>h'. build_st dim (map PStr names) dc h
            = (as_st (map_result (\<lambda>c. ()) (build_dim_categories dm names cats)), h') \<and>
          extends h0 h' \<and>
          (\<forall>cats'. build_dim_categories dm names cats = Inr cats' \<longrightarrow> dc_rep h' dc cats')"
  using assms(1,4)
proof (induction names arbitrary: h cats)
  case Nil
  then show ?case by simp
next
  case (Cons n names)
  from assms(3) obtain kvs where dim: "obj_at h0 dim = Some (PDict kvs)"
    and entries: "\<And>m. case dm m of
             None \<Rightarrow> map_of kvs (PStr m) = None
           | Some cat \<Rightarrow> (\<exists>dv. map_of kvs (PStr m) = Some dv \<and> is_dim h0 dv cat)"
    by (auto simp: is_dimension_def)
  have dimh: "dict_items h dim = Inr kvs"
    using obj_at_extends [OF Cons.prems(1) dim] by (simp add: dict_items_def)
  show ?case
  proof (cases "dm n")
    case None
    then have "dict_getitem h dim (PStr n) = Inl (Py KeyError)"
      using entries [of n] by (simp add: dict_getitem_def dimh)
    then show ?thesis using None Cons.prems(1) by simp
  next
    case (Some cat)
    then obtain dv where dv: "map_of kvs (PStr n) = Some dv" "is_dim h0 dv cat"
      using entries [of n] by auto
    then obtain kvs2 cv where d2: "obj_at h0 dv = Some (PDict kvs2)"
        "map_of kvs2 (PStr ''category'') = Some cv" "is_category h0 cv cat"
      by (auto simp: is_dim_def)
    then obtain kvs3 where d3: "obj_at h0 cv = Some (PDict kvs3)"
        and ix: "case cat of
           None \<Rightarrow> map_of kvs3 (PStr ''index'') = None
         | Some index \<Rightarrow> (\<exists>iv. map_of kvs3 (PStr ''index'') = Some iv \<and> is_index h0 iv index)"
      by (auto simp: is_category_def)
    let ?ix = "case cat of None \<Rightarrow> [] | Some index \<Rightarrow> index"
    let ?h1 = "h @ [PDict []]"
    let ?p2c = "map (\<lambda>(pos, code). (PInt pos, PStr code)) (pos_to_code_of ?ix)"
    let ?h2 = "?h1 @ [PDict ?p2c]"
    have e1: "extends h0 ?h1" and e2: "extends h0 ?h2"
      by (intro extends_append Cons.prems(1))+
    have g1: "dict_getitem h dim (PStr n) = Inr dv"
      using dv by (simp add: dict_getitem_def dimh)
    have g2: "dict_getitem h dv (PStr ''category'') = Inr cv"
      using obj_at_extends [OF Cons.prems(1) d2(1)] d2(2) by (simp add: dict_getitem_def dict_items_def)
    have a1: "alloc (PDict []) h = (length h, ?h1)"
      by (simp add: alloc_def)
    have "\<exists>index. dict_get ?h1 cv (PStr ''index'') (PRef (length h)) = Inr index \<and>
        dict_items ?h1 index = Inr (map (\<lambda>(code, pos). (PStr code, PInt pos)) ?ix)"
    proof (cases cat)
      case None
      then show ?thesis
        using obj_at_extends [OF e1 d3] ix
        by (simp add: dict_get_def dict_items_def obj_at_def)
    next
      case (Some index)
      then obtain iv where "map_of kvs3 (PStr ''index'') = Some iv" "is_index h0 iv index"
        using ix by auto
      then show ?thesis
        using obj_at_extends [OF e1 d3] obj_at_extends [OF e1, of iv] Some
        by (simp add: dict_get_def dict_items_def is_index_def)
    qed
    then obtain index where g3: "dict_get ?h1 cv (PStr ''index'') (PRef (length h)) = Inr index"
      and g4: "dict_items ?h1 index = Inr (map (\<lambda>(code, pos). (PStr code, PInt pos)) ?ix)"
      by blast
    have a2: "alloc (PDict (fold (\<lambda>(code, pos) d. AList.update pos code d)
          (map (\<lambda>(code, pos). (PStr code, PInt pos)) ?ix) [])) ?h1 = (Suc (length h), ?h2)"
      by (simp add: alloc_def pos_to_code_enc)
    have g5: "dict_items ?h2 (PRef (Suc (length h))) = Inr ?p2c"
      by (simp add: dict_items_def obj_at_def nth_append)
    have res: "resolve_categories cat =
        (if pos_to_code_of ?ix = [] then Inr [''_missing_'']
         else lookup_all (pos_to_code_of ?ix) (py_range (Max (set (map fst (pos_to_code_of ?ix))) + 1)))"
      by (simp add: resolve_categories_def Let_def)
    have step: "build_st dim (PStr n # map PStr names) dc h =
        (if pos_to_code_of ?ix = [] then
           build_st dim (map PStr names) dc
             (dict_setitem dc (PStr n) (PRef (Suc (Suc (length h)))) (?h2 @ [PList [PStr ''_missing_'']]))
         else
           (case lookup_all (pos_to_code_of ?ix) (py_range (Max (set (map fst (pos_to_code_of ?ix))) + 1)) of
              Inl e \<Rightarrow> (Inl (Py e), ?h2)
            | Inr codes \<Rightarrow>
                build_st dim (map PStr names) dc
                  (dict_setitem dc (PStr n) (PRef (Suc (Suc (length h)))) (?h2 @ [PList (map PStr codes)]))))"
    proof -
      have a3: "alloc (PList xs) ?h2 = (Suc (Suc (length h)), ?h2 @ [PList xs])" for xs :: "'a pyval list"
        by (simp add: alloc_def)
      have nil: "(?p2c = []) = (pos_to_code_of ?ix = [])"
        by simp
      show ?thesis
        unfolding build_st.simps g1 sum.case a1 prod.case g2 g3 g4 a2 g5 nil
          ints_of_enc lookup_all_st_enc a3
        by (cases "lookup_all (pos_to_code_of ?ix) (py_range (Max (set (map fst (pos_to_code_of ?ix))) + 1))")
           simp_all
    qed
    have next_ok: "\<exists>h'. build_st dim (map PStr names) dc
              (dict_setitem dc (PStr n) (PRef (Suc (Suc (length h)))) (?h2 @ [PList (map PStr codes)]))
            = (as_st (map_result (\<lambda>c. ()) (build_dim_categories dm names (cats(n \<mapsto> codes)))), h') \<and>
          extends h0 h' \<and>
          (\<forall>cats'. build_dim_categories dm names (cats(n \<mapsto> codes)) = Inr cats' \<longrightarrow> dc_rep h' dc cats')"
      for codes
    proof (rule Cons.IH)
      show "extends h0 (dict_setitem dc (PStr n) (PRef (Suc (Suc (length h)))) (?h2 @ [PList (map PStr codes)]))"
        by (intro extends_dict_setitem extends_append e2 assms(2))
      have "extends h (?h2 @ [PList (map PStr codes)])"
        by (auto simp: extends_def nth_append)
      with Cons.prems(2)
      show "dc_rep (dict_setitem dc (PStr n) (PRef (Suc (Suc (length h)))) (?h2 @ [PList (map PStr codes)]))
          dc (cats(n \<mapsto> codes))"
        by (rule dc_rep_setitem) (simp_all add: nth_append)
    qed
    show ?thesis
    proof (cases "pos_to_code_of ?ix = []")
      case True
      then show ?thesis
        using next_ok [of "[''_missing_'']"] Some res by (simp add: step del: build_st.simps)
    next
      case False
      show ?thesis
      proof (cases "lookup_all (pos_to_code_of ?ix) (py_range (Max (set (map fst (pos_to_code_of ?ix))) + 1))")
        case (Inl e)
        then show ?thesis using False Some res e2 by (auto simp: step simp del: build_st.simps)
      next
        case (Inr codes)
        then show ?thesis
          using next_ok [of codes] False Some res by (simp add: step del: build_st.simps)
      qed
    qed
  qed
qed

lemma n_obs_st_enc: "n_obs_st (map PInt sizes) n = Inr (fold (\<lambda>s n_obs. n_obs * s) sizes n)"
  by (induction sizes arbitrary: n) (simp_all add: int_of_def)

lemma strides_st_enc:
  assumes "s < length h" and "h ! s = PList (map PInt st)"
  shows "strides_st s (map PInt xs) acc h
     = (Inr (), h[s := PList (map PInt
          (fst (fold (\<lambda>size (strides, acc). (acc # strides, acc * size)) xs (st, acc))))])"
  using assms
proof (induction xs arbitrary: h st acc)
  case Nil
  then have "h[s := PList (map PInt st)] = h" by (metis list_update_id)
  then show ?case by simp
next
  case (Cons x xs)
  have "list_insert0 s (PInt acc) h = h[s := PList (map PInt (acc # st))]"
    using Cons.prems by (simp add: list_insert0_def)
  then show ?case
    using Cons.prems(1) Cons.IH [of "h[s := PList (map PInt (acc # st))]" "acc # st" "acc * x"]
    by (simp add: int_of_def)
qed

lemma enc_cc_update: "enc_cc (AList.update n c cc) = AList.update (PStr n) (PStr c) (enc_cc cc)"
  unfolding enc_cc_def by (rule map_update_inj [OF inj_PStr])

lemma enc_row_make_row:
  "enc_row (make_row cc x) = AList.update (PStr ''value'') (PNum x) (enc_cc cc)"
proof -
  have a: "enc_row (map (\<lambda>(dim_name, code). (dim_name, Code code)) cc) = (enc_cc cc :: ('a pyval \<times> 'a pyval) list)"
    by (induction cc) (auto simp: enc_row_def enc_cc_def enc_cell_def)
  have b: "enc_row (AList.update k v al) = AList.update (PStr k) (enc_cell v) (enc_row al)"
    for k and v :: "'a cell" and al
    unfolding enc_row_def by (rule map_update_inj [OF inj_PStr])
  show ?thesis
    unfolding make_row_def b a by (simp add: enc_cell_def)
qed

lemma row_of_enc_row: "row_of (enc_row r) = Inr r"
proof (induction r)
  case Nil
  then show ?case by (simp add: enc_row_def)
next
  case (Cons p r)
  obtain column c where p: "p = (column, c)" by (cases p)
  have "cell_of (enc_cell c) = Inr c"
    by (cases c) (simp_all add: enc_cell_def)
  then show ?case using Cons by (simp add: p enc_row_def)
qed

lemma py_index_map: "py_index (map f xs) i = map_result f (py_index xs i)"
  by (auto simp: py_index_def)

lemma list_getitem_enc:
  "obj_at h l = Some (PList (map f xs)) \<Longrightarrow> list_getitem h l i = as_st (map_result f (py_index xs i))"
  by (cases "py_index xs i") (simp_all add: list_getitem_def list_items_def py_index_map)

lemma coord_st_correct:
  assumes hb: "dc_rep hb dc cats" "obj_at hb dim_ids = Some (PList (map PStr ids))" "length hb \<le> cc"
    and st: "strides < cc"
  shows "extends hb h \<Longrightarrow> h ! strides = PList (map PInt sts) \<Longrightarrow> cc < length h \<Longrightarrow>
     h ! cc = PDict (enc_cc ccv) \<Longrightarrow>
     \<exists>h'. coord_st strides dim_ids dc cc idxs r h
            = (as_st (map_result (\<lambda>c. ()) (coord_loop sts ids cats idxs r ccv)), h') \<and>
          length h' = length h \<and> (\<forall>a. a \<noteq> cc \<longrightarrow> h' ! a = h ! a) \<and>
          (\<forall>ccv'. coord_loop sts ids cats idxs r ccv = Inr ccv' \<longrightarrow> h' ! cc = PDict (enc_cc ccv'))"
proof (induction idxs arbitrary: r ccv h)
  case Nil
  then show ?case by simp
next
  case (Cons i idxs)
  from hb(1) obtain kvs where dc: "dc < length hb" "hb ! dc = PDict kvs"
    and reps: "\<And>n. case cats n of
             None \<Rightarrow> map_of kvs (PStr n) = None
           | Some cs \<Rightarrow> (\<exists>b. map_of kvs (PStr n) = Some (PRef b) \<and> dc < b \<and> b < length hb \<and>
                  hb ! b = PList (map PStr cs))"
    by (auto simp: dc_rep_def)
  have below: "a < length hb \<Longrightarrow> h ! a = hb ! a" "length hb \<le> length h" for a
    using Cons.prems(1) by (auto simp: extends_def)
  have g1: "list_getitem h (PRef strides) (int i) = as_st (map_result PInt (py_index sts (int i)))"
    using Cons.prems(2,3) st by (intro list_getitem_enc) (simp add: obj_at_def)
  have g2: "list_getitem h dim_ids (int i) = as_st (map_result PStr (py_index ids (int i)))"
    using obj_at_extends [OF Cons.prems(1) hb(2)] by (rule list_getitem_enc)
  have dch: "dict_items h (PRef dc) = Inr kvs"
    using dc below by (simp add: dict_items_def obj_at_def)
  show ?case
  proof (cases "py_index sts (int i)")
    case (Inl e)
    then show ?thesis by (simp add: g1)
  next
    case (Inr stride)
    note stride = this
    show ?thesis
    proof (cases "stride = 0")
      case True
      then show ?thesis using stride by (simp add: g1 int_of_def)
    next
      case False
      show ?thesis
      proof (cases "py_index ids (int i)")
        case (Inl e)
        then show ?thesis using stride False by (simp add: g1 g2 int_of_def)
      next
        case (Inr n)
        note name = this
        show ?thesis
        proof (cases "cats n")
          case None
          then have "dict_getitem h (PRef dc) (PStr n) = Inl (Py KeyError)"
            using reps [of n] by (simp add: dict_getitem_def dch)
          then show ?thesis using stride False name None by (simp add: g1 g2 int_of_def)
        next
          case (Some cs)
          then obtain b where b: "map_of kvs (PStr n) = Some (PRef b)" "b < length hb"
              "hb ! b = PList (map PStr cs)"
            using reps [of n] by auto
          have g3: "dict_getitem h (PRef dc) (PStr n) = Inr (PRef b)"
            using b by (simp add: dict_getitem_def dch)
          have "obj_at h (PRef b) = Some (PList (map PStr cs))"
            using b below by (simp add: obj_at_def)
          then have g4: "list_getitem h (PRef b) k = as_st (map_result PStr (py_index cs k))" for k
            by (rule list_getitem_enc)
          show ?thesis
          proof (cases "py_index cs (r div stride)")
            case (Inl e)
            then show ?thesis
              using stride False name Some by (simp add: g1 g2 g3 g4 int_of_def)
          next
            case (Inr code)
            let ?h1 = "dict_setitem cc (PStr n) (PStr code) h"
            have at_cc: "?h1 ! cc = PDict (enc_cc (AList.update n code ccv))"
              using Cons.prems(3,4) by (simp add: nth_dict_setitem_same enc_cc_update)
            have other: "a \<noteq> cc \<Longrightarrow> ?h1 ! a = h ! a" for a
              by (rule nth_dict_setitem_other)
            have "extends hb ?h1"
              using Cons.prems(1) hb(3) by (rule extends_dict_setitem)
            moreover have "?h1 ! strides = PList (map PInt sts)"
              using Cons.prems(2) st by (simp add: other)
            moreover have "cc < length ?h1" using Cons.prems(3) by simp
            ultimately obtain h' where h':
              "coord_st strides dim_ids dc cc idxs (r mod stride) ?h1
                = (as_st (map_result (\<lambda>c. ()) (coord_loop sts ids cats idxs (r mod stride)
                     (AList.update n code ccv))), h')"
              "length h' = length ?h1" "\<forall>a. a \<noteq> cc \<longrightarrow> h' ! a = ?h1 ! a"
              "\<forall>ccv'. coord_loop sts ids cats idxs (r mod stride) (AList.update n code ccv) = Inr ccv'
                  \<longrightarrow> h' ! cc = PDict (enc_cc ccv')"
              using Cons.IH [OF _ _ _ at_cc] by blast
            have "coord_st strides dim_ids dc cc (i # idxs) r h
                = coord_st strides dim_ids dc cc idxs (r mod stride) ?h1"
              using stride False name Some Inr by (simp add: g1 g2 g3 g4 int_of_def)
            moreover have "coord_loop sts ids cats (i # idxs) r ccv
                = coord_loop sts ids cats idxs (r mod stride) (AList.update n code ccv)"
              using stride False name Some Inr by simp
            ultimately show ?thesis
              using h' other by (intro exI [of _ h']) simp
          qed
        qed
      qed
    qed
  qed
qed

lemma get_value_at_st_enc:
  assumes "is_value hb val store" and "extends hb h"
  shows "get_value_at_st h val i = as_st (map_result enc_opt (get_value_at store i))"
proof (cases store)
  case (Dense vs)
  then have "obj_at h val = Some (PList (map enc_opt vs))"
    using assms by (auto simp: is_value_def intro: obj_at_extends)
  then show ?thesis
    using Dense by (simp add: get_value_at_st_def list_getitem_enc)
next
  case (Sparse m)
  then obtain kvs where "obj_at h val = Some (PDict kvs)"
      "\<And>k. map_of kvs (PStr k) = map_option enc_opt (m k)"
    using assms by (auto simp: is_value_def intro: obj_at_extends)
  then show ?thesis
    using Sparse
    by (cases "m (str i)") (simp_all add: get_value_at_st_def dict_get_def dict_items_def enc_opt_def)
next
  case Other
  then have "obj_at h val = None"
    using assms(1) by (cases val) (auto simp: is_value_def obj_at_def)
  then show ?thesis using Other by (simp add: get_value_at_st_def enc_opt_def)
qed

lemma length_list_append [simp]: "length (list_append a v h) = length h"
  by (simp add: list_append_def split: pyobj.splits)

lemma nth_list_append_other: "b \<noteq> a \<Longrightarrow> list_append a v h ! b = h ! b"
  by (simp add: list_append_def split: pyobj.splits)

lemma nth_list_append_same:
  "a < length h \<Longrightarrow> h ! a = PList xs \<Longrightarrow> list_append a v h ! a = PList (xs @ [v])"
  by (simp add: list_append_def)

lemma extends_list_append: "extends h0 h \<Longrightarrow> length h0 \<le> a \<Longrightarrow> extends h0 (list_append a v h)"
  by (auto simp: extends_def nth_list_append_other)

lemma flat_st_correct:
  fixes js :: "'v cube"
  assumes hb: "dc_rep hb dc cats" "obj_at hb dim_ids = Some (PList (map PStr (js_id js)))"
      "is_value hb val (js_value js)"
    and rows: "rows = length hb" and strides: "strides = Suc (length hb)"
  shows "extends hb h \<Longrightarrow> Suc (length hb) < length h \<Longrightarrow> h ! strides = PList (map PInt sts) \<Longrightarrow>
     rows_rep h rows rs \<Longrightarrow>
     \<exists>h'. flat_st strides dim_ids dc val (length (js_size js)) rows ps h
            = (as_st (map_result (\<lambda>c. ()) (flat_loop js sts cats ps rs)), h') \<and>
          extends hb h' \<and>
          (\<forall>rs'. flat_loop js sts cats ps rs = Inr rs' \<longrightarrow> rows_rep h' rows rs')"
proof (induction ps arbitrary: h rs)
  case Nil
  then show ?case by simp
next
  case (Cons i ps)
  let ?cc = "length h"
  let ?h1 = "h @ [PDict []]"
  have e1: "extends hb ?h1" using Cons.prems(1) by (rule extends_append)
  have "\<exists>h2. coord_st strides dim_ids dc ?cc [0..<length (js_size js)] i ?h1
            = (as_st (map_result (\<lambda>c. ()) (coord_loop sts (js_id js) cats [0..<length (js_size js)] i [])), h2) \<and>
          length h2 = length ?h1 \<and> (\<forall>a. a \<noteq> ?cc \<longrightarrow> h2 ! a = ?h1 ! a) \<and>
          (\<forall>ccv'. coord_loop sts (js_id js) cats [0..<length (js_size js)] i [] = Inr ccv'
              \<longrightarrow> h2 ! ?cc = PDict (enc_cc ccv'))"
  proof (rule coord_st_correct [OF hb(1,2)])
    show "length hb \<le> ?cc" using Cons.prems(2) by simp
    show "strides < ?cc" using Cons.prems(2) strides by simp
    show "extends hb ?h1" by (rule e1)
    show "?h1 ! strides = PList (map PInt sts)"
      using Cons.prems(2,3) strides by (simp add: nth_append)
    show "?cc < length ?h1" by simp
    show "?h1 ! ?cc = PDict (enc_cc [])" by (simp add: enc_cc_def)
  qed
  then obtain h2 where h2:
      "coord_st strides dim_ids dc ?cc [0..<length (js_size js)] i ?h1
        = (as_st (map_result (\<lambda>c. ()) (coord_loop sts (js_id js) cats [0..<length (js_size js)] i [])), h2)"
      "length h2 = Suc (length h)" "\<And>a. a \<noteq> ?cc \<Longrightarrow> h2 ! a = ?h1 ! a"
      "\<And>ccv'. coord_loop sts (js_id js) cats [0..<length (js_size js)] i [] = Inr ccv'
          \<Longrightarrow> h2 ! ?cc = PDict (enc_cc ccv')"
    by auto
  have same: "a < length h \<Longrightarrow> h2 ! a = h ! a" for a
    using h2(3) [of a] by (simp add: nth_append)
  have e2: "extends hb h2"
    using Cons.prems(1) h2(2) same by (auto simp: extends_def)
  have st2: "h2 ! strides = PList (map PInt sts)"
    using Cons.prems(2,3) strides same by simp
  have rr2: "rows_rep h2 rows rs"
  proof -
    from Cons.prems(4) obtain refs where refs: "h ! rows = PList (map PRef refs)"
        "list_all2 (\<lambda>a r. rows < a \<and> a < length h \<and> h ! a = PDict (enc_row r)) refs rs"
      by (auto simp: rows_rep_def)
    have "list_all2 (\<lambda>a r. rows < a \<and> a < length h2 \<and> h2 ! a = PDict (enc_row r)) refs rs"
      using refs(2) by (rule list_all2_mono) (auto simp: same h2(2))
    moreover have "h2 ! rows = PList (map PRef refs)"
      using refs(1) rows Cons.prems(2) same by simp
    moreover have "rows < length h2" using rows Cons.prems(2) h2(2) by simp
    ultimately show ?thesis by (auto simp: rows_rep_def)
  qed
  have a1: "alloc (PDict []) h = (?cc, ?h1)" by (simp add: alloc_def)
  have gv: "get_value_at_st h2 val i = as_st (map_result enc_opt (get_value_at (js_value js) i))"
    using hb(3) e2 by (rule get_value_at_st_enc)
  show ?case
  proof (cases "coord_loop sts (js_id js) cats [0..<length (js_size js)] i []")
    case (Inl e)
    then show ?thesis using h2(1) e2 by (simp add: a1)
  next
    case (Inr ccv)
    note ccv = this
    have cc2: "h2 ! ?cc = PDict (enc_cc ccv)" using h2(4) [OF ccv] .
    show ?thesis
    proof (cases "get_value_at (js_value js) i")
      case (Inl e)
      then show ?thesis using h2(1) e2 ccv gv by (simp add: a1)
    next
      case (Inr v)
      show ?thesis
      proof (cases v)
        case None
        have "flat_st strides dim_ids dc val (length (js_size js)) rows (i # ps) h
            = flat_st strides dim_ids dc val (length (js_size js)) rows ps h2"
          using h2(1) ccv gv Inr None by (simp add: a1 enc_opt_def)
        moreover have "flat_loop js sts cats (i # ps) rs = flat_loop js sts cats ps rs"
          using ccv Inr None by simp
        moreover have "Suc (length hb) < length h2" using Cons.prems(2) h2(2) by simp
        ultimately show ?thesis
          using Cons.IH [OF e2 _ st2 rr2] by simp
      next
        case (Some x)
        let ?row = "Suc (length h)"
        let ?h3 = "h2 @ [PDict (enc_cc ccv)]"
        let ?h4 = "dict_setitem ?row (PStr ''value'') (PNum x) ?h3"
        let ?h5 = "list_append rows (PRef ?row) ?h4"
        have items: "dict_items h2 (PRef ?cc) = Inr (enc_cc ccv)"
          using cc2 h2(2) by (simp add: dict_items_def obj_at_def)
        have a2: "alloc (PDict (enc_cc ccv)) h2 = (?row, ?h3)"
          using h2(2) by (simp add: alloc_def)
        have step: "flat_st strides dim_ids dc val (length (js_size js)) rows (i # ps) h
            = flat_st strides dim_ids dc val (length (js_size js)) rows ps ?h5"
          using h2(1) ccv gv Inr Some by (simp add: a1 enc_opt_def items a2)
        have pure: "flat_loop js sts cats (i # ps) rs = flat_loop js sts cats ps (rs @ [make_row ccv x])"
          using ccv Inr Some by simp
        have row4: "?h4 ! ?row = PDict (enc_row (make_row ccv x))"
          using h2(2) by (simp add: nth_dict_setitem_same nth_append enc_row_make_row)
        have old4: "a < Suc (length h) \<Longrightarrow> ?h4 ! a = h2 ! a" for a
          using h2(2) by (simp add: nth_dict_setitem_other nth_append)
        have rowsb: "rows < length h" "rows \<noteq> ?row" "rows < ?row"
          using rows Cons.prems(2) by simp_all
        from rr2 obtain refs where refs: "h2 ! rows = PList (map PRef refs)"
            "list_all2 (\<lambda>a r. rows < a \<and> a < length h2 \<and> h2 ! a = PDict (enc_row r)) refs rs"
          by (auto simp: rows_rep_def)
        have rows5: "?h5 ! rows = PList (map PRef (refs @ [?row]))"
          using refs(1) rowsb old4 [of rows] h2(2) by (simp add: nth_list_append_same)
        have other5: "a \<noteq> rows \<Longrightarrow> ?h5 ! a = ?h4 ! a" for a
          by (rule nth_list_append_other)
        have len5: "length ?h5 = Suc (Suc (length h))" using h2(2) by simp
        have e5: "extends hb ?h5"
        proof -
          have "extends hb ?h3" using e2 by (rule extends_append)
          then have "extends hb ?h4" using Cons.prems(2) by (intro extends_dict_setitem) simp_all
          then show ?thesis using rows by (intro extends_list_append) simp_all
        qed
        have st5: "?h5 ! strides = PList (map PInt sts)"
        proof -
          have "strides \<noteq> rows" "strides < Suc (length h)"
            using strides rows Cons.prems(2) by simp_all
          then have "?h5 ! strides = h2 ! strides"
            using other5 [of strides] old4 [of strides] by simp
          then show ?thesis using st2 by simp
        qed
        have rr5: "rows_rep ?h5 rows (rs @ [make_row ccv x])"
        proof -
          have "list_all2 (\<lambda>a r. rows < a \<and> a < length ?h5 \<and> ?h5 ! a = PDict (enc_row r)) refs rs"
            using refs(2)
          proof (rule list_all2_mono)
            fix a r assume "rows < a \<and> a < length h2 \<and> h2 ! a = PDict (enc_row r)"
            then show "rows < a \<and> a < length ?h5 \<and> ?h5 ! a = PDict (enc_row r)"
              using h2(2) old4 [of a] by (simp add: other5)
          qed
          moreover have "rows < ?row \<and> ?row < length ?h5 \<and> ?h5 ! ?row = PDict (enc_row (make_row ccv x))"
            using rowsb row4 by (simp add: other5 h2(2))
          ultimately have "list_all2 (\<lambda>a r. rows < a \<and> a < length ?h5 \<and> ?h5 ! a = PDict (enc_row r))
              (refs @ [?row]) (rs @ [make_row ccv x])"
            by (simp add: list_all2_appendI)
          moreover have "rows < length ?h5" using rowsb len5 by simp
          ultimately show ?thesis using rows5 unfolding rows_rep_def by blast
        qed
        have "Suc (length hb) < length ?h5" using Cons.prems(2) len5 by simp
        then show ?thesis
          using Cons.IH [OF e5 _ st5 rr5] by (simp add: step pure del: flat_st.simps flat_loop.simps)
      qed
    qed
  qed
qed

lemma frame_rows_rep:
  "list_all2 (\<lambda>a r. rows < a \<and> a < length h \<and> h ! a = PDict (enc_row r)) refs rs \<Longrightarrow>
   frame_rows h (map PRef refs) = Inr rs"
  by (induction refs rs rule: list_all2_induct)
     (simp_all add: dict_items_def obj_at_def row_of_enc_row)

lemma data_frame_rows: "rows_rep h rows rs \<Longrightarrow> data_frame h rows = Inr rs"
  by (auto simp: rows_rep_def data_frame_def list_items_def obj_at_def frame_rows_rep)

lemma is_value_extends: "extends h0 h \<Longrightarrow> is_value h0 v store \<Longrightarrow> is_value h v store"
  by (cases store) (auto simp: is_value_def intro: obj_at_extends)

lemma is_dimension_extends:
  assumes "extends h0 h" and "is_dimension h0 v dm"
  shows "is_dimension h v dm"
proof -
  note up = obj_at_extends [OF assms(1)]
  have idx: "is_index h0 iv index \<Longrightarrow> is_index h iv index" for iv index
    by (simp add: is_index_def up)
  have cat: "is_category h0 cv c \<Longrightarrow> is_category h cv c" for cv c
    unfolding is_category_def by (cases c) (auto intro: up idx)
  have dim: "is_dim h0 dv c \<Longrightarrow> is_dim h dv c" for dv c
    unfolding is_dim_def by (auto intro: up cat)
  from assms(2) obtain kvs where kvs: "obj_at h0 v = Some (PDict kvs)"
    and entries: "\<And>n. case dm n of
             None \<Rightarrow> map_of kvs (PStr n) = None
           | Some c \<Rightarrow> (\<exists>dv. map_of kvs (PStr n) = Some dv \<and> is_dim h0 dv c)"
    by (auto simp: is_dimension_def)
  have "case dm n of
             None \<Rightarrow> map_of kvs (PStr n) = None
           | Some c \<Rightarrow> (\<exists>dv. map_of kvs (PStr n) = Some dv \<and> is_dim h dv c)" for n
    using entries [of n] by (cases "dm n") (auto intro: dim)
  then show ?thesis
    unfolding is_dimension_def using up [OF kvs] by blast
qed

lemma is_cube_extends:
  assumes "extends h0 h" and "is_cube h0 v js"
  shows "is_cube h v js"
proof -
  from assms(2) obtain kvs dim val ids sizes where c:
      "obj_at h0 v = Some (PDict kvs)"
      "map_of kvs (PStr ''dimension'') = Some dim" "is_dimension h0 dim (js_dimension js)"
      "map_of kvs (PStr ''value'') = Some val" "is_value h0 val (js_value js)"
      "map_of kvs (PStr ''id'') = Some ids" "obj_at h0 ids = Some (PList (map PStr (js_id js)))"
      "map_of kvs (PStr ''size'') = Some sizes" "obj_at h0 sizes = Some (PList (map PInt (js_size js)))"
    unfolding is_cube_def by blast
  have "obj_at h v = Some (PDict kvs)" "is_dimension h dim (js_dimension js)"
      "is_value h val (js_value js)" "obj_at h ids = Some (PList (map PStr (js_id js)))"
      "obj_at h sizes = Some (PList (map PInt (js_size js)))"
    using c assms(1) by (auto intro: obj_at_extends is_dimension_extends is_value_extends)
  then show ?thesis
    unfolding is_cube_def using c(2,4,6,8) by blast
qed

lemma is_document_extends:
  assumes "extends h0 h" and "is_document h0 v doc"
  shows "is_document h v doc"
proof -
  from assms(2) obtain kvs where kvs: "obj_at h0 v = Some (PDict kvs)"
    and d: "case doc of
           Bare js \<Rightarrow> map_of kvs (PStr ''dataset'') = None \<and> is_cube h0 v js
         | Dataset js \<Rightarrow> (\<exists>d. map_of kvs (PStr ''dataset'') = Some d \<and> is_cube h0 d js)"
    unfolding is_document_def by blast
  have "case doc of
           Bare js \<Rightarrow> map_of kvs (PStr ''dataset'') = None \<and> is_cube h v js
         | Dataset js \<Rightarrow> (\<exists>d. map_of kvs (PStr ''dataset'') = Some d \<and> is_cube h d js)"
    using d assms(1) by (cases doc) (auto intro: is_cube_extends)
  then show ?thesis
    unfolding is_document_def using obj_at_extends [OF assms(1) kvs] by blast
qed

lemma cube_st_correct:
  fixes js :: "'v cube"
  assumes top: "dict_items h js0 = Inr entries"
    and root: "(case map_of entries (PStr ''dataset'') of None \<Rightarrow> js0 | Some d \<Rightarrow> d) = v"
    and cube: "is_cube h v js"
  shows "\<exists>h'. jsonstat_to_dataframe_st js0 h = (as_st (decode js), h') \<and> extends h h'"
proof -
  from cube obtain kvs dim val ids sizes where c:
      "obj_at h v = Some (PDict kvs)"
      "map_of kvs (PStr ''dimension'') = Some dim" "is_dimension h dim (js_dimension js)"
      "map_of kvs (PStr ''value'') = Some val" "is_value h val (js_value js)"
      "map_of kvs (PStr ''id'') = Some ids" "obj_at h ids = Some (PList (map PStr (js_id js)))"
      "map_of kvs (PStr ''size'') = Some sizes" "obj_at h sizes = Some (PList (map PInt (js_size js)))"
    unfolding is_cube_def by blast
  let ?dc = "length h"
  let ?h1 = "h @ [PDict []]"
  have g: "dict_getitem h v (PStr ''dimension'') = Inr dim" "dict_getitem h v (PStr ''value'') = Inr val"
      "dict_getitem h v (PStr ''id'') = Inr ids" "dict_getitem h v (PStr ''size'') = Inr sizes"
    using c by (simp_all add: dict_getitem_def dict_items_def)
  have a1: "alloc (PDict []) h = (?dc, ?h1)" by (simp add: alloc_def)
  have e1: "extends h ?h1" using extends_refl by (rule extends_append)
  have names: "list_items ?h1 ids = Inr (map PStr (js_id js))"
    using obj_at_extends [OF e1 c(7)] by (simp add: list_items_def)
  have "dc_rep ?h1 ?dc Map.empty" by (simp add: dc_rep_def)
  with e1 obtain h2 where h2:
      "build_st dim (map PStr (js_id js)) ?dc ?h1
        = (as_st (map_result (\<lambda>c. ()) (build_dim_categories (js_dimension js) (js_id js) Map.empty)), h2)"
      "extends h h2"
      "\<And>cats. build_dim_categories (js_dimension js) (js_id js) Map.empty = Inr cats \<Longrightarrow> dc_rep h2 ?dc cats"
    using build_st_correct [of h ?h1 ?dc dim "js_dimension js" Map.empty "js_id js"] c(3) by auto
  show ?thesis
  proof (cases "build_dim_categories (js_dimension js) (js_id js) Map.empty")
    case (Inl e)
    then show ?thesis
      using h2(1,2) by (simp add: jsonstat_to_dataframe_st_def top root g a1 names decode_def)
  next
    case (Inr cats)
    let ?rows = "length h2"
    let ?strides = "Suc (length h2)"
    let ?h4 = "h2 @ [PList [], PList []]"
    let ?sts = "strides_of (js_size js)"
    let ?h5 = "?h4[?strides := PList (map PInt ?sts)]"
    have sz: "list_items h2 sizes = Inr (map PInt (js_size js))"
      using obj_at_extends [OF h2(2) c(9)] by (simp add: list_items_def)
    have n: "n_obs_st (map PInt (js_size js)) 1 = Inr (n_obs_of (js_size js))"
      by (simp add: n_obs_st_enc n_obs_of_def)
    have a2: "alloc (PList []) h2 = (?rows, h2 @ [PList []])"
      and a3: "alloc (PList []) (h2 @ [PList []]) = (?strides, ?h4)"
      by (simp_all add: alloc_def)
    have s5: "strides_st ?strides (rev (map PInt (js_size js))) 1 ?h4 = (Inr (), ?h5)"
    proof -
      have "strides_st ?strides (map PInt (rev (js_size js))) 1 ?h4
          = (Inr (), ?h4[?strides := PList (map PInt
              (fst (fold (\<lambda>size (strides, acc). (acc # strides, acc * size)) (rev (js_size js)) ([], 1))))])"
        by (rule strides_st_enc) (simp_all add: nth_append)
      then show ?thesis by (simp add: rev_map strides_of_def)
    qed
    have e5: "extends h2 ?h5"
      by (auto simp: extends_def nth_append)
    have "\<exists>h6. flat_st ?strides ids ?dc val (length (js_size js)) ?rows (py_range (n_obs_of (js_size js))) ?h5
            = (as_st (map_result (\<lambda>c. ()) (flat_loop js ?sts cats (py_range (n_obs_of (js_size js))) [])), h6) \<and>
          extends h2 h6 \<and>
          (\<forall>rs'. flat_loop js ?sts cats (py_range (n_obs_of (js_size js))) [] = Inr rs' \<longrightarrow> rows_rep h6 ?rows rs')"
    proof (rule flat_st_correct [OF h2(3) [OF Inr] _ _ refl refl e5])
      show "obj_at h2 ids = Some (PList (map PStr (js_id js)))"
        using h2(2) c(7) by (rule obj_at_extends)
      show "is_value h2 val (js_value js)"
        using h2(2) c(5) by (rule is_value_extends)
      show "Suc (length h2) < length ?h5" by simp
      show "?h5 ! ?strides = PList (map PInt ?sts)" by simp
      show "rows_rep ?h5 ?rows []" by (simp add: rows_rep_def nth_append)
    qed
    then obtain h6 where h6:
        "flat_st ?strides ids ?dc val (length (js_size js)) ?rows (py_range (n_obs_of (js_size js))) ?h5
          = (as_st (map_result (\<lambda>c. ()) (flat_loop js ?sts cats (py_range (n_obs_of (js_size js))) [])), h6)"
        "extends h2 h6"
        "\<And>rs'. flat_loop js ?sts cats (py_range (n_obs_of (js_size js))) [] = Inr rs' \<Longrightarrow> rows_rep h6 ?rows rs'"
      by blast
    have e6: "extends h h6" using h2(2) h6(2) by (rule extends_trans)
    have dec: "decode js = flat_loop js ?sts cats (py_range (n_obs_of (js_size js))) []"
      using Inr by (simp add: decode_def)
    have run: "jsonstat_to_dataframe_st js0 h =
        (case flat_st ?strides ids ?dc val (length (js_size js)) ?rows (py_range (n_obs_of (js_size js))) ?h5 of
           (Inl e, h6) \<Rightarrow> (Inl e, h6)
         | (Inr u, h6) \<Rightarrow> (data_frame h6 ?rows, h6))"
      unfolding jsonstat_to_dataframe_st_def top sum.case root g a1 prod.case names h2(1) Inr
        map_result_simps as_st_simps sz n a2 a3 s5 length_map
      by simp
    show ?thesis
    proof (cases "flat_loop js ?sts cats (py_range (n_obs_of (js_size js))) []")
      case (Inl e)
      then show ?thesis using e6 by (simp add: run h6(1) dec)
    next
      case (Inr rs)
      from h6(3) [OF Inr] have "data_frame h6 ?rows = Inr rs" by (rule data_frame_rows)
      then show ?thesis using e6 Inr by (simp add: run h6(1) dec)
    qed
  qed
qed

lemma document_st_correct:
  assumes "is_document h js0 doc"
  shows "\<exists>h'. jsonstat_to_dataframe_st js0 h = (as_st (jsonstat_to_dataframe doc), h') \<and> extends h h'"
proof -
  from assms obtain kvs where kvs: "obj_at h js0 = Some (PDict kvs)"
    and d: "case doc of
           Bare js \<Rightarrow> map_of kvs (PStr ''dataset'') = None \<and> is_cube h js0 js
         | Dataset js \<Rightarrow> (\<exists>d. map_of kvs (PStr ''dataset'') = Some d \<and> is_cube h d js)"
    unfolding is_document_def by blast
  have top: "dict_items h js0 = Inr kvs"
    using kvs by (simp add: dict_items_def)
  show ?thesis
  proof (cases doc)
    case (Dataset js)
    then obtain v where "map_of kvs (PStr ''dataset'') = Some v" "is_cube h v js"
      using d by auto
    then show ?thesis
      using cube_st_correct [OF top, of v js] Dataset by (simp add: jsonstat_to_dataframe_def)
  next
    case (Bare js)
    then have "map_of kvs (PStr ''dataset'') = None" "is_cube h js0 js"
      using d by auto
    then show ?thesis
      using cube_st_correct [OF top, of js0 js] Bare by (simp add: jsonstat_to_dataframe_def)
  qed
qed

subsection \<open>Flat-position order\<close>

text \<open>
  C1. For every cube the strides computed by the function are the row-major strides (the stride
  of a dimension is the product of the sizes after it, 1 for the last dimension). The function
  returns rows exactly when every category list resolves and, at every flat position from 0 up
  to the product of the sizes, every coordinate is an index of its category list and the store
  can be read. The rows are then, in increasing flat position, one observation for each flat
  position that has a value and none for a position without: the observation pairs every
  dimension with the code at its coordinate, the coordinates being obtained by successive
  division and remainder by the strides in dimension order, and carries the value stored at
  that position. The order is that of the flat positions, not that of the codes.
\<close>

theorem decode_row_major:
  "strides_of (js_size (unwrap doc)) = rowmajor_strides (js_size (unwrap doc)) \<and>
   (jsonstat_to_dataframe doc = Inr rows \<longleftrightarrow>
      categories_ok (unwrap doc) \<and>
      list_all (position_ok (unwrap doc)) [0..prod_list (js_size (unwrap doc)) - 1] \<and>
      rows = map (spec_observation (unwrap doc))
               (filter (\<lambda>flat_idx. value_at (js_value (unwrap doc)) flat_idx \<noteq> None)
                  [0..prod_list (js_size (unwrap doc)) - 1]))"
proof -
  have rows: "spec_rows (unwrap doc) =
      map (spec_observation (unwrap doc))
        (filter (\<lambda>flat_idx. value_at (js_value (unwrap doc)) flat_idx \<noteq> None)
           [0..prod_list (js_size (unwrap doc)) - 1])"
    by (simp add: spec_rows_def present_positions_def)
  have "jsonstat_to_dataframe doc = Inr rows \<longleftrightarrow>
      categories_ok (unwrap doc) \<and>
      list_all (position_ok (unwrap doc)) [0..prod_list (js_size (unwrap doc)) - 1] \<and>
      rows = spec_rows (unwrap doc)"
    by (auto simp: jsonstat_to_dataframe_def decode_eq py_range_upto)
  then show ?thesis
    by (simp only: rows strides_of_rowmajor simp_thms)
qed

theorem decode_row_major_witness:
  "strides_of (js_size (unwrap (Bare unsorted_cube))) = [3, 1] \<and>
   jsonstat_to_dataframe (Bare unsorted_cube) =
     Inr [[(''geo'', Code ''B''), (''time'', Code ''2022''), (''value'', Val 1)],
          [(''geo'', Code ''B''), (''time'', Code ''2021''), (''value'', Val 3)],
          [(''geo'', Code ''A''), (''time'', Code ''2021''), (''value'', Val 6)]] \<and>
   jsonstat_to_dataframe (Dataset unsorted_sparse_cube) =
     Inr [[(''geo'', Code ''B''), (''time'', Code ''2022''), (''value'', Val 1)],
          [(''geo'', Code ''A''), (''time'', Code ''2021''), (''value'', Val 6)]]"
proof -
  let ?dense = "[[(''geo'', Code ''B''), (''time'', Code ''2022''), (''value'', Val 1)],
          [(''geo'', Code ''B''), (''time'', Code ''2021''), (''value'', Val 3)],
          [(''geo'', Code ''A''), (''time'', Code ''2021''), (''value'', Val (6::int))]]"
  let ?sparse = "[[(''geo'', Code ''B''), (''time'', Code ''2022''), (''value'', Val 1)],
          [(''geo'', Code ''A''), (''time'', Code ''2021''), (''value'', Val (6::int))]]"
  have st: "rowmajor_strides (js_size unsorted_cube) = [3, 1]"
    by code_simp
  have ok: "categories_ok unsorted_cube"
      "list_all (position_ok unsorted_cube) [0..prod_list (js_size unsorted_cube) - 1]"
      "categories_ok unsorted_sparse_cube"
      "list_all (position_ok unsorted_sparse_cube) [0..prod_list (js_size unsorted_sparse_cube) - 1]"
    by code_simp+
  have d: "map (spec_observation unsorted_cube)
        (filter (\<lambda>flat_idx. value_at (js_value unsorted_cube) flat_idx \<noteq> None)
           [0..prod_list (js_size unsorted_cube) - 1]) = ?dense"
    by code_simp
  have s: "map (spec_observation unsorted_sparse_cube)
        (filter (\<lambda>flat_idx. value_at (js_value unsorted_sparse_cube) flat_idx \<noteq> None)
           [0..prod_list (js_size unsorted_sparse_cube) - 1]) = ?sparse"
    by code_simp
  show ?thesis
    using decode_row_major [of "Bare unsorted_cube" ?dense]
      decode_row_major [of "Dataset unsorted_sparse_cube" ?sparse] st ok d s
    by simp
qed

subsection \<open>The number of observations\<close>

text \<open>
  C2. For every well-formed cube the function returns rows. Their number is the number of flat
  positions that have a value (for a dense store the number of entries that are not null, for a
  sparse store the number of keys), and it is at most the product of the sizes. The rows
  correspond one to one, in order, to the flat positions that have a value: the row at index
  \<open>k\<close> is the observation of the \<open>k\<close>-th such position, with the codes of that position's
  coordinates and the value stored there. A flat position without a value is none of these
  positions: it yields no row, with a placeholder value or otherwise.
\<close>

theorem well_formed_cube_count:
  assumes "well_formed (unwrap doc)"
  shows "\<exists>rows. jsonstat_to_dataframe doc = Inr rows
     \<and> length rows =
         card {i. 0 \<le> i \<and> i < prod_list (js_size (unwrap doc))
                  \<and> value_at (js_value (unwrap doc)) i \<noteq> None}
     \<and> int (length rows) \<le> prod_list (js_size (unwrap doc))
     \<and> (\<forall>vs. js_value (unwrap doc) = Dense vs \<longrightarrow> length rows = length (filter (\<lambda>v. v \<noteq> None) vs))
     \<and> (\<forall>m. js_value (unwrap doc) = Sparse m \<longrightarrow> length rows = card (dom m))
     \<and> sorted_wrt (<) (present_positions (unwrap doc))
     \<and> set (present_positions (unwrap doc)) =
         {i. 0 \<le> i \<and> i < prod_list (js_size (unwrap doc))
             \<and> value_at (js_value (unwrap doc)) i \<noteq> None}
     \<and> length rows = length (present_positions (unwrap doc))
     \<and> (\<forall>k < length rows.
           \<exists>v. value_at (js_value (unwrap doc)) (present_positions (unwrap doc) ! k) = Some v
             \<and> rows ! k = spec_observation (unwrap doc) (present_positions (unwrap doc) ! k)
             \<and> map_of (rows ! k) ''value'' = Some (Val v))"
proof -
  let ?js = "unwrap doc"
  let ?ps = "present_positions ?js"
  have dec: "jsonstat_to_dataframe doc = Inr (spec_rows ?js)"
    using well_formed_decode [OF assms] by (simp add: jsonstat_to_dataframe_def)
  have pos: "0 < prod_list (js_size ?js)"
  proof -
    have "list_all2 (\<lambda>n s. 0 < s \<and> int (length (resolved ?js n)) = s) (js_id ?js) (js_size ?js)"
      using assms by (simp add: well_formed_def well_formed_dims_def)
    then have "\<forall>s \<in> set (js_size ?js). 0 < s"
      by (auto simp: list_all2_conv_all_nth in_set_conv_nth)
    then show ?thesis by (rule prod_list_positive)
  qed
  have le: "int (length (spec_rows ?js)) \<le> prod_list (js_size ?js)"
    using length_spec_rows_le [of ?js] pos by simp
  have dense: "length (spec_rows ?js) = length (filter (\<lambda>v. v \<noteq> None) vs)"
    if "js_value ?js = Dense vs" for vs
    using assms that by (intro length_spec_rows_dense) (simp_all add: well_formed_def)
  have sparse: "length (spec_rows ?js) = card (dom m)" if "js_value ?js = Sparse m" for m
    using assms that by (intro length_spec_rows_sparse) (simp_all add: well_formed_def)
  have sorted: "sorted_wrt (<) ?ps"
    unfolding present_positions_def by (intro sorted_wrt_filter) simp
  have set: "set ?ps = {i. 0 \<le> i \<and> i < prod_list (js_size ?js) \<and> value_at (js_value ?js) i \<noteq> None}"
    by (auto simp: present_positions_def)
  have len: "length (spec_rows ?js) = length ?ps"
    by (simp add: spec_rows_def)
  have row: "\<exists>v. value_at (js_value ?js) (?ps ! k) = Some v
       \<and> spec_rows ?js ! k = spec_observation ?js (?ps ! k)
       \<and> map_of (spec_rows ?js ! k) ''value'' = Some (Val v)" if "k < length (spec_rows ?js)" for k
  proof -
    have k: "k < length ?ps" using that len by simp
    then have "?ps ! k \<in> set ?ps" by (rule nth_mem)
    then obtain v where v: "value_at (js_value ?js) (?ps ! k) = Some v"
      using set by auto
    have "spec_rows ?js ! k = spec_observation ?js (?ps ! k)"
      using k by (simp add: spec_rows_def)
    then show ?thesis using v by (simp add: value_cell_spec_observation)
  qed
  show ?thesis
    using dec length_spec_rows [of ?js] le dense sparse sorted set len row by blast
qed

theorem well_formed_cube_count_witness:
  "well_formed (unwrap (Bare holes_cube)) \<and> well_formed (unwrap (Bare sparse_cube))
   \<and> jsonstat_to_dataframe (Bare holes_cube) =
       Inr [[(''geo'', Code ''A''), (''time'', Code ''2020''), (''value'', Val 1)],
            [(''geo'', Code ''A''), (''time'', Code ''2022''), (''value'', Val 3)],
            [(''geo'', Code ''B''), (''time'', Code ''2022''), (''value'', Val 6)]]
   \<and> (\<exists>rows. jsonstat_to_dataframe (Bare sparse_cube) = Inr rows \<and> length rows = 3)"
proof -
  have sizes: "py_range (prod_list [2, 3]) = [0, 1, 2, 3, 4, 5]"
    by (simp add: py_range_def upt_conv_Cons)
  have strs: "map str [0, 1, 2, 3, 4, 5] = [''0'', ''1'', ''2'', ''3'', ''4'', ''5'']"
    by (simp add: str_def str_nat.simps digit_char_def)
  have geo: "resolved holes_cube ''geo'' = [''A'', ''B'']" "resolved sparse_cube ''geo'' = [''A'', ''B'']"
    and time: "resolved holes_cube ''time'' = [''2020'', ''2021'', ''2022'']"
       "resolved sparse_cube ''time'' = [''2020'', ''2021'', ''2022'']"
    by code_simp+
  have cats: "categories_ok holes_cube" "categories_ok sparse_cube"
    by code_simp+
  have d: "well_formed (unwrap (Bare holes_cube))"
    using cats geo time by (simp add: well_formed_def well_formed_dims_def holes_cube_def)
  have s: "well_formed (unwrap (Bare sparse_cube))"
    using cats geo time sizes strs
    by (simp add: well_formed_def well_formed_dims_def sparse_cube_def)
  have ps: "present_positions holes_cube = [0, 2, 5]"
    by code_simp
  have obs: "spec_observation holes_cube 0 = [(''geo'', Code ''A''), (''time'', Code ''2020''), (''value'', Val 1)]"
      "spec_observation holes_cube 2 = [(''geo'', Code ''A''), (''time'', Code ''2022''), (''value'', Val 3)]"
      "spec_observation holes_cube 5 = [(''geo'', Code ''B''), (''time'', Code ''2022''), (''value'', Val 6)]"
    by code_simp+
  have "\<exists>rows. jsonstat_to_dataframe (Bare holes_cube) = Inr rows
      \<and> length rows = length (present_positions holes_cube)
      \<and> (\<forall>k < length rows. rows ! k = spec_observation holes_cube (present_positions holes_cube ! k))"
    using well_formed_cube_count [OF d] unfolding unwrap.simps by blast
  then obtain rows where rows:
      "jsonstat_to_dataframe (Bare holes_cube) = Inr rows"
      "length rows = length (present_positions holes_cube)"
      "\<forall>k < length rows. rows ! k = spec_observation holes_cube (present_positions holes_cube ! k)"
    by blast
  have len3: "length rows = 3"
    using rows(2) by (simp add: ps)
  then have "rows = [rows ! 0, rows ! 1, rows ! 2]"
    by (auto simp: list_eq_iff_nth_eq less_Suc_eq numeral_3_eq_3 numeral_2_eq_2 nth_Cons')
  moreover have "rows ! 0 = spec_observation holes_cube 0" "rows ! 1 = spec_observation holes_cube 2"
      "rows ! 2 = spec_observation holes_cube 5"
    using rows(3) len3 by (simp_all add: ps)
  ultimately have "rows = [spec_observation holes_cube 0, spec_observation holes_cube 2, spec_observation holes_cube 5]"
    by simp
  then have dense: "jsonstat_to_dataframe (Bare holes_cube) =
       Inr [[(''geo'', Code ''A''), (''time'', Code ''2020''), (''value'', Val 1)],
            [(''geo'', Code ''A''), (''time'', Code ''2022''), (''value'', Val 3)],
            [(''geo'', Code ''B''), (''time'', Code ''2022''), (''value'', Val 6)]]"
    using rows(1) obs by simp
  have sparse: "\<exists>rows. jsonstat_to_dataframe (Bare sparse_cube) = Inr rows \<and> length rows = 3"
    using well_formed_cube_count [OF s] by (auto simp: sparse_cube_def)
  show ?thesis
    using d s dense sparse by simp
qed

subsection \<open>The worked examples\<close>

text \<open>
  C3. Decoding the dense 2 by 3 cube (dimensions geo and time, values 1 to 6) yields exactly
  six observations, in the order (A, 2020, 1), (A, 2021, 2), (A, 2022, 3), (B, 2020, 4),
  (B, 2021, 5), (B, 2022, 6).
\<close>

theorem dense_cube_decodes:
  "jsonstat_to_dataframe (Bare dense_cube) =
     Inr [[(''geo'', Code ''A''), (''time'', Code ''2020''), (''value'', Val 1)],
          [(''geo'', Code ''A''), (''time'', Code ''2021''), (''value'', Val 2)],
          [(''geo'', Code ''A''), (''time'', Code ''2022''), (''value'', Val 3)],
          [(''geo'', Code ''B''), (''time'', Code ''2020''), (''value'', Val 4)],
          [(''geo'', Code ''B''), (''time'', Code ''2021''), (''value'', Val 5)],
          [(''geo'', Code ''B''), (''time'', Code ''2022''), (''value'', Val 6)]]"
  by code_simp

text \<open>
  C4. Decoding the same cube with the sparse store that holds only the keys 0, 3 and 5
  (values 1, 4 and 6) yields exactly three observations, in the order (A, 2020, 1),
  (B, 2020, 4), (B, 2022, 6).
\<close>

theorem sparse_cube_decodes:
  "jsonstat_to_dataframe (Bare sparse_cube) =
     Inr [[(''geo'', Code ''A''), (''time'', Code ''2020''), (''value'', Val 1)],
          [(''geo'', Code ''B''), (''time'', Code ''2020''), (''value'', Val 4)],
          [(''geo'', Code ''B''), (''time'', Code ''2022''), (''value'', Val 6)]]"
  by code_simp

subsection \<open>An empty dimension list\<close>

text \<open>
  C5 (as the code has it). A cube whose dimension list is empty is not rejected. With an empty
  size vector the size product is 1 and the function reads flat position 0: it returns one
  observation holding only the value when the store has a value there, no observation when
  it has none, and raises \<open>IndexError\<close> when the dense store is empty. With a size vector
  that is not empty it returns no observation when the size product is not positive and
  raises \<open>IndexError\<close> otherwise.
\<close>

theorem empty_dimension_list:
  assumes "js_id (unwrap doc) = []"
  shows "jsonstat_to_dataframe doc =
     (if js_size (unwrap doc) = [] then
        (case get_value_at (js_value (unwrap doc)) 0 of
           Inl e \<Rightarrow> Inl e
         | Inr None \<Rightarrow> Inr []
         | Inr (Some v) \<Rightarrow> Inr [[(''value'', Val v)]])
      else if prod_list (js_size (unwrap doc)) \<le> 0 then Inr []
      else Inl IndexError)"
proof (cases "js_size (unwrap doc) = []")
  case True
  then show ?thesis using assms
    by (simp add: jsonstat_to_dataframe_def decode_def n_obs_of_def strides_of_def py_range_def
          make_row_def split: sum.splits option.splits)
next
  case False
  let ?js = "unwrap doc"
  have cats: "categories_ok ?js" using assms by (simp add: categories_ok_def)
  show ?thesis
  proof (cases "prod_list (js_size ?js) \<le> 0")
    case True
    then show ?thesis using False cats
      by (simp add: jsonstat_to_dataframe_def decode_eq py_range_empty spec_rows_py_range)
  next
    case pos: False
    have "\<not> coords_ok ?js i" for i
    proof
      assume "coords_ok ?js i"
      then have "length (take (length (js_size ?js)) (js_id ?js)) = length (coords_of ?js i)"
        unfolding coords_ok_def by (rule list_all2_lengthD)
      then show False using assms False
        by (simp add: coords_of_def length_successive_divmod length_rowmajor_strides)
    qed
    moreover have "0 \<in> set (py_range (prod_list (js_size ?js)))"
      using pos by (simp add: set_py_range)
    ultimately have "\<not> list_all (position_ok ?js) (py_range (prod_list (js_size ?js)))"
      by (auto simp: list_all_iff position_ok_def)
    then show ?thesis using False pos cats
      by (simp add: jsonstat_to_dataframe_def decode_eq)
  qed
qed

theorem empty_dimension_list_witness:
  "js_id (unwrap (Bare no_dimension_sparse_cube)) = [] \<and>
   jsonstat_to_dataframe (Bare no_dimension_sparse_cube) = Inr [[(''value'', Val 5)]]"
proof -
  have a: "js_id (unwrap (Bare no_dimension_sparse_cube)) = []"
    by (simp add: no_dimension_sparse_cube_def)
  have "str 0 = ''0''"
    by (simp add: str_def str_nat.simps digit_char_def)
  then show ?thesis
    using a empty_dimension_list [OF a] by (simp add: no_dimension_sparse_cube_def)
qed

theorem empty_dimension_list_counterexample:
  "js_id no_dimension_cube = [] \<and> js_size no_dimension_cube = [] \<and>
   jsonstat_to_dataframe (Bare no_dimension_cube) = Inr [[(''value'', Val 7)]]"
  by code_simp

subsection \<open>The value store is not validated\<close>

text \<open>
  C6 (as the code has it). For a cube with well-formed dimensions: a value store that is
  neither a list nor a dictionary raises nothing, every flat position reads as absent and no
  observation is returned; a dense store shorter than the size product raises
  \<open>IndexError\<close> and no row is returned; a dense store at least as long as the size product
  decodes, and the result is that of the store cut to its first size-product entries.
\<close>

theorem unchecked_value_store:
  assumes "well_formed_dims (unwrap doc)"
  shows "(js_value (unwrap doc) = Other \<longrightarrow> jsonstat_to_dataframe doc = Inr []) \<and>
     (\<forall>vs. js_value (unwrap doc) = Dense vs \<longrightarrow>
        (int (length vs) < prod_list (js_size (unwrap doc)) \<longrightarrow>
           jsonstat_to_dataframe doc = Inl IndexError) \<and>
        (prod_list (js_size (unwrap doc)) \<le> int (length vs) \<longrightarrow>
           (\<exists>rows. jsonstat_to_dataframe doc = Inr rows) \<and>
           jsonstat_to_dataframe doc =
             jsonstat_to_dataframe
               (Bare ((unwrap doc)\<lparr>js_value :=
                  Dense (take (nat (prod_list (js_size (unwrap doc)))) vs)\<rparr>))))"
proof -
  let ?js = "unwrap doc"
  let ?n = "prod_list (js_size ?js)"
  note dec = well_formed_dims_decode [OF assms]
  have other: "jsonstat_to_dataframe doc = Inr []" if "js_value ?js = Other"
    using that
    by (simp add: jsonstat_to_dataframe_def dec list_all_iff value_ok_get_value_at spec_rows_py_range value_at_get_value_at)
  have short: "jsonstat_to_dataframe doc = Inl IndexError"
    if "js_value ?js = Dense vs" "int (length vs) < ?n" for vs
  proof -
    have "int (length vs) \<in> set (py_range ?n)" using that by (simp add: set_py_range)
    moreover have "\<not> value_ok (js_value ?js) (int (length vs))"
      using that by (simp add: value_ok_get_value_at py_index_def)
    ultimately have "\<not> list_all (value_ok (js_value ?js)) (py_range ?n)"
      by (auto simp: list_all_iff)
    then show ?thesis by (simp add: jsonstat_to_dataframe_def dec)
  qed
  have long: "(\<exists>rows. jsonstat_to_dataframe doc = Inr rows) \<and>
       jsonstat_to_dataframe doc =
         jsonstat_to_dataframe (Bare (?js\<lparr>js_value := Dense (take (nat ?n) vs)\<rparr>))"
    if "js_value ?js = Dense vs" "?n \<le> int (length vs)" for vs
  proof -
    have "list_all (value_ok (js_value ?js)) (py_range ?n)"
      using that by (auto simp: list_all_iff value_ok_get_value_at py_index_def set_py_range)
    then have "\<exists>rows. jsonstat_to_dataframe doc = Inr rows"
      by (simp add: jsonstat_to_dataframe_def dec)
    moreover have "\<forall>i \<in> set (py_range ?n).
        get_value_at (Dense (take (nat ?n) vs)) i = get_value_at (js_value ?js) i"
      using that by (auto simp: py_index_def set_py_range)
    then have "decode (?js\<lparr>js_value := Dense (take (nat ?n) vs)\<rparr>) = decode ?js"
      by (rule decode_store_cong)
    ultimately show ?thesis by (simp add: jsonstat_to_dataframe_def)
  qed
  show ?thesis using other short long by blast
qed

theorem unchecked_value_store_witness:
  "well_formed_dims (unwrap (Bare other_store_cube)) \<and>
   jsonstat_to_dataframe (Bare other_store_cube) = Inr [] \<and>
   jsonstat_to_dataframe (Bare short_dense_cube) = Inl IndexError \<and>
   jsonstat_to_dataframe (Bare long_dense_cube) = jsonstat_to_dataframe (Bare dense_cube)"
proof -
  have o: "well_formed_dims (unwrap (Bare other_store_cube))"
    and s: "well_formed_dims (unwrap (Bare short_dense_cube))"
    and l: "well_formed_dims (unwrap (Bare long_dense_cube))"
    by code_simp+
  have "take (nat (prod_list [2, 3])) [Some 1, Some 2, Some 3, Some 4, Some 5, Some 6, Some (7::int)]
      = [Some 1, Some 2, Some 3, Some 4, Some 5, Some 6]"
    by code_simp
  then show ?thesis
    using o unchecked_value_store [OF o] unchecked_value_store [OF s] unchecked_value_store [OF l]
    by (simp add: other_store_cube_def short_dense_cube_def long_dense_cube_def dense_cube_def)
qed

theorem unchecked_value_store_counterexample:
  "js_value other_store_cube = Other \<and>
   jsonstat_to_dataframe (Bare other_store_cube) = Inr [] \<and>
   prod_list (js_size long_dense_cube) = 6 \<and>
   jsonstat_to_dataframe (Bare long_dense_cube) =
     Inr [[(''geo'', Code ''A''), (''time'', Code ''2020''), (''value'', Val 1)],
          [(''geo'', Code ''A''), (''time'', Code ''2021''), (''value'', Val 2)],
          [(''geo'', Code ''A''), (''time'', Code ''2022''), (''value'', Val 3)],
          [(''geo'', Code ''B''), (''time'', Code ''2020''), (''value'', Val 4)],
          [(''geo'', Code ''B''), (''time'', Code ''2021''), (''value'', Val 5)],
          [(''geo'', Code ''B''), (''time'', Code ''2022''), (''value'', Val 6)]]"
proof -
  have "js_value other_store_cube = Other"
    by (simp add: other_store_cube_def)
  moreover have "jsonstat_to_dataframe (Bare other_store_cube) = Inr []"
    by code_simp
  moreover have "prod_list (js_size long_dense_cube) = 6"
    by code_simp
  moreover have "jsonstat_to_dataframe (Bare long_dense_cube) =
     Inr [[(''geo'', Code ''A''), (''time'', Code ''2020''), (''value'', Val 1)],
          [(''geo'', Code ''A''), (''time'', Code ''2021''), (''value'', Val 2)],
          [(''geo'', Code ''A''), (''time'', Code ''2022''), (''value'', Val 3)],
          [(''geo'', Code ''B''), (''time'', Code ''2020''), (''value'', Val 4)],
          [(''geo'', Code ''B''), (''time'', Code ''2021''), (''value'', Val 5)],
          [(''geo'', Code ''B''), (''time'', Code ''2022''), (''value'', Val 6)]]"
    by code_simp
  ultimately show ?thesis by simp
qed

subsection \<open>Coordinates outside a category list\<close>

text \<open>
  C8 (as the code has it). When the category lists resolve and the stride arithmetic at a flat
  position below the size product yields, for some dimension, an index that list indexing
  does not accept (at least the length of the dimension's category list, or below minus that
  length), the function raises \<open>IndexError\<close> and returns no row.
\<close>

theorem coordinate_out_of_range:
  assumes "categories_ok (unwrap doc)"
    and "0 \<le> i" and "i < prod_list (js_size (unwrap doc))"
    and "j < length (js_size (unwrap doc))" and "j < length (js_id (unwrap doc))"
    and "\<not> in_bounds (resolved (unwrap doc) (js_id (unwrap doc) ! j)) (coords_of (unwrap doc) i ! j)"
  shows "jsonstat_to_dataframe doc = Inl IndexError"
proof -
  let ?js = "unwrap doc"
  have "\<not> coords_ok ?js i"
  proof
    assume "coords_ok ?js i"
    then have "list_all2 (\<lambda>dim_name k. in_bounds (resolved ?js dim_name) k)
        (take (length (js_size ?js)) (js_id ?js)) (coords_of ?js i)"
      by (simp add: coords_ok_def)
    moreover have "j < length (take (length (js_size ?js)) (js_id ?js))"
      using assms(4,5) by simp
    ultimately have "in_bounds (resolved ?js (take (length (js_size ?js)) (js_id ?js) ! j)) (coords_of ?js i ! j)"
      by (rule list_all2_nthD)
    then show False using assms(4,6) by simp
  qed
  moreover have "i \<in> set (py_range (prod_list (js_size ?js)))"
    using assms(2,3) by (simp add: set_py_range)
  ultimately have "\<not> list_all (position_ok ?js) (py_range (prod_list (js_size ?js)))"
    by (auto simp: list_all_iff position_ok_def)
  then show ?thesis using assms(1) by (simp add: jsonstat_to_dataframe_def decode_eq)
qed

theorem coordinate_out_of_range_witness:
  "categories_ok (unwrap (Bare oversized_cube)) \<and>
   coords_of (unwrap (Bare oversized_cube)) 2 ! 0 = 2 \<and>
   resolved (unwrap (Bare oversized_cube)) (js_id (unwrap (Bare oversized_cube)) ! 0) = [''A'', ''B''] \<and>
   jsonstat_to_dataframe (Bare oversized_cube) = Inl IndexError"
proof -
  have c: "categories_ok (unwrap (Bare oversized_cube))"
    and k: "coords_of (unwrap (Bare oversized_cube)) 2 ! 0 = 2"
    and r: "resolved (unwrap (Bare oversized_cube)) (js_id (unwrap (Bare oversized_cube)) ! 0) = [''A'', ''B'']"
    by code_simp+
  have p: "(2::int) < prod_list (js_size (unwrap (Bare oversized_cube)))"
    and l: "0 < length (js_size (unwrap (Bare oversized_cube)))" "0 < length (js_id (unwrap (Bare oversized_cube)))"
    by (simp_all add: oversized_cube_def)
  have b: "\<not> in_bounds (resolved (unwrap (Bare oversized_cube)) (js_id (unwrap (Bare oversized_cube)) ! 0))
      (coords_of (unwrap (Bare oversized_cube)) 2 ! 0)"
    unfolding k r by (simp add: in_bounds_def)
  show ?thesis
    using c k r coordinate_out_of_range [OF c _ p l b] by simp
qed

theorem coordinate_out_of_range_counterexample:
  "coords_of negative_size_cube 1 = [- 1, - 1] \<and>
   jsonstat_to_dataframe (Bare negative_size_cube) =
     Inr [[(''geo'', Code ''A''), (''time'', Code ''2020''), (''value'', Val 1)],
          [(''geo'', Code ''B''), (''time'', Code ''2022''), (''value'', Val 2)]]"
  by code_simp

subsection \<open>Keys of a sparse store that are no flat position\<close>

text \<open>
  C10. For a cube with a sparse store, removing from the store every entry whose key is not
  the decimal representation of a flat position below the size product leaves the result of
  the function unchanged.
\<close>

theorem sparse_store_restriction:
  assumes "js_value (unwrap doc) = Sparse m"
    and "unwrap doc' = (unwrap doc)\<lparr>js_value :=
           Sparse (m |` (str ` set (py_range (prod_list (js_size (unwrap doc))))))\<rparr>"
  shows "jsonstat_to_dataframe doc' = jsonstat_to_dataframe doc"
proof -
  let ?js = "unwrap doc"
  let ?keys = "str ` set (py_range (prod_list (js_size ?js)))"
  have "\<forall>i \<in> set (py_range (prod_list (js_size ?js))).
      get_value_at (Sparse (m |` ?keys)) i = get_value_at (js_value ?js) i"
    using assms(1) by simp
  then have "decode (?js\<lparr>js_value := Sparse (m |` ?keys)\<rparr>) = decode ?js"
    by (rule decode_store_cong)
  then show ?thesis using assms(2) by (simp add: jsonstat_to_dataframe_def)
qed

theorem sparse_store_restriction_witness:
  "js_value (unwrap (Bare noisy_sparse_cube)) = Sparse noisy_store \<and>
   jsonstat_to_dataframe
     (Bare (noisy_sparse_cube\<lparr>js_value :=
        Sparse (noisy_store |` (str ` set (py_range (prod_list (js_size noisy_sparse_cube)))))\<rparr>))
     = jsonstat_to_dataframe (Bare noisy_sparse_cube)"
proof -
  have a: "js_value (unwrap (Bare noisy_sparse_cube)) = Sparse noisy_store"
    by (simp add: noisy_sparse_cube_def)
  show ?thesis
    using a sparse_store_restriction [OF a,
      of "Bare (noisy_sparse_cube\<lparr>js_value :=
        Sparse (noisy_store |` (str ` set (py_range (prod_list (js_size noisy_sparse_cube)))))\<rparr>)"]
    by simp
qed

subsection \<open>A dimension without categories\<close>

text \<open>
  C7 (as the code has it). For a dimension that supplies no categories the function puts the
  single placeholder code in place of the category list, and keeps the declared size. When
  that declared size is 1, and the dimension's identifier is neither repeated nor \<open>value\<close>,
  the function raises exactly when it raises on the cube without this dimension, with the
  same error; when it returns, every row carries the placeholder code for this dimension and,
  without that entry, the rows are the rows of the cube without this dimension.
\<close>

theorem placeholder_of_size_one:
  assumes "k < length (js_id (unwrap doc))" and "k < length (js_size (unwrap doc))"
    and "js_dimension (unwrap doc) (js_id (unwrap doc) ! k) = Some cat" and "no_categories cat"
    and "js_size (unwrap doc) ! k = 1"
    and "js_id (unwrap doc) ! k \<notin> set (js_id (drop_dimension k (unwrap doc)))"
    and "js_id (unwrap doc) ! k \<noteq> ''value''"
  shows "resolve_categories cat = Inr [''_missing_''] \<and>
     jsonstat_to_dataframe (Bare (drop_dimension k (unwrap doc)))
       = map_result (map (AList.delete (js_id (unwrap doc) ! k))) (jsonstat_to_dataframe doc) \<and>
     (\<forall>rows. jsonstat_to_dataframe doc = Inr rows \<longrightarrow>
        (\<forall>row \<in> set rows. map_of row (js_id (unwrap doc) ! k) = Some (Code ''_missing_'')))"
proof -
  let ?js = "unwrap doc"
  have a: "resolve_categories cat = Inr [''_missing_'']"
    using assms(4) by (rule no_categories_resolve)
  have b: "jsonstat_to_dataframe (Bare (drop_dimension k ?js))
      = map_result (map (AList.delete (js_id ?js ! k))) (jsonstat_to_dataframe doc)"
    using decode_drop_dimension [OF assms(1,2,5,3,4,6,7)]
    by (simp add: jsonstat_to_dataframe_def)
  have res: "resolved ?js (js_id ?js ! k) = [''_missing_'']"
    using assms(3) a by (simp add: resolved_def)
  have c: "map_of row (js_id ?js ! k) = Some (Code ''_missing_'')"
    if "jsonstat_to_dataframe doc = Inr rows" "row \<in> set rows" for rows row
    using placeholder_code [OF assms(1,2) res assms(7) _ that(2)] that(1)
    by (simp add: jsonstat_to_dataframe_def)
  show ?thesis using a b c by blast
qed

theorem placeholder_of_size_one_witness:
  "js_dimension (unwrap (Bare placeholder_cube)) (js_id (unwrap (Bare placeholder_cube)) ! 1) = Some (Some []) \<and>
   no_categories (Some []) \<and>
   js_size (unwrap (Bare placeholder_cube)) ! 1 = 1 \<and>
   jsonstat_to_dataframe (Bare (drop_dimension 1 placeholder_cube))
     = map_result (map (AList.delete ''unit'')) (jsonstat_to_dataframe (Bare placeholder_cube)) \<and>
   jsonstat_to_dataframe (Bare placeholder_cube) =
     Inr [[(''geo'', Code ''A''), (''unit'', Code ''_missing_''), (''time'', Code ''2020''), (''value'', Val 1)],
          [(''geo'', Code ''A''), (''unit'', Code ''_missing_''), (''time'', Code ''2021''), (''value'', Val 2)],
          [(''geo'', Code ''A''), (''unit'', Code ''_missing_''), (''time'', Code ''2022''), (''value'', Val 3)],
          [(''geo'', Code ''B''), (''unit'', Code ''_missing_''), (''time'', Code ''2020''), (''value'', Val 4)],
          [(''geo'', Code ''B''), (''unit'', Code ''_missing_''), (''time'', Code ''2021''), (''value'', Val 5)],
          [(''geo'', Code ''B''), (''unit'', Code ''_missing_''), (''time'', Code ''2022''), (''value'', Val 6)]]"
proof -
  let ?js = "unwrap (Bare placeholder_cube)"
  have h1: "(1::nat) < length (js_id ?js)" and h2: "(1::nat) < length (js_size ?js)"
    and h3: "js_dimension ?js (js_id ?js ! 1) = Some (Some [])"
    and h4: "no_categories (Some [])"
    and h5: "js_size ?js ! 1 = 1"
    and h6: "js_id ?js ! 1 \<notin> set (js_id (drop_dimension 1 ?js))"
    and h7: "js_id ?js ! 1 \<noteq> ''value''"
    and x: "js_id ?js ! 1 = ''unit''"
    by (simp_all add: placeholder_cube_def placeholder_dimension_def no_categories_def
          drop_dimension_def)
  have rows: "jsonstat_to_dataframe (Bare placeholder_cube) =
     Inr [[(''geo'', Code ''A''), (''unit'', Code ''_missing_''), (''time'', Code ''2020''), (''value'', Val 1)],
          [(''geo'', Code ''A''), (''unit'', Code ''_missing_''), (''time'', Code ''2021''), (''value'', Val 2)],
          [(''geo'', Code ''A''), (''unit'', Code ''_missing_''), (''time'', Code ''2022''), (''value'', Val 3)],
          [(''geo'', Code ''B''), (''unit'', Code ''_missing_''), (''time'', Code ''2020''), (''value'', Val 4)],
          [(''geo'', Code ''B''), (''unit'', Code ''_missing_''), (''time'', Code ''2021''), (''value'', Val 5)],
          [(''geo'', Code ''B''), (''unit'', Code ''_missing_''), (''time'', Code ''2022''), (''value'', Val 6)]]"
    by code_simp
  show ?thesis
    using placeholder_of_size_one [OF h1 h2 h3 h4 h5 h6 h7] h3 h4 h5 x rows
    by simp
qed

theorem placeholder_of_size_one_counterexample:
  "no_categories (the (js_dimension placeholder_size_cube ''unit'')) \<and>
   resolved placeholder_size_cube ''unit'' = [''_missing_''] \<and>
   js_size placeholder_size_cube = [2, 2] \<and>
   jsonstat_to_dataframe (Bare placeholder_size_cube) = Inl IndexError"
  by code_simp

subsection \<open>No side effect, no hidden state\<close>

text \<open>
  C9. On every store that holds a document, the function on stores returns what the function
  on cubes returns for that document, whatever else the store holds; every object that was
  in the store before the call, the whole document included, is in the store after the call
  with the same content; and a second call on the store left by the first returns the same
  result.
\<close>

theorem decode_store_unchanged:
  assumes "is_document h js doc"
  shows "fst (jsonstat_to_dataframe_st js h) = as_st (jsonstat_to_dataframe doc) \<and>
     extends h (snd (jsonstat_to_dataframe_st js h)) \<and>
     fst (jsonstat_to_dataframe_st js (snd (jsonstat_to_dataframe_st js h)))
       = fst (jsonstat_to_dataframe_st js h)"
proof -
  from document_st_correct [OF assms] obtain h' where
    first: "jsonstat_to_dataframe_st js h = (as_st (jsonstat_to_dataframe doc), h')" "extends h h'"
    by blast
  have "is_document h' js doc"
    using first(2) assms by (rule is_document_extends)
  from document_st_correct [OF this] obtain h'' where
    "jsonstat_to_dataframe_st js h' = (as_st (jsonstat_to_dataframe doc), h'')"
    by blast
  then show ?thesis using first by simp
qed

theorem decode_store_unchanged_witness:
  "is_document dense_store (PRef 10) (Bare dense_cube) \<and>
   extends dense_store (snd (jsonstat_to_dataframe_st (PRef 10) dense_store)) \<and>
   fst (jsonstat_to_dataframe_st (PRef 10) (snd (jsonstat_to_dataframe_st (PRef 10) dense_store)))
     = fst (jsonstat_to_dataframe_st (PRef 10) dense_store)"
proof -
  have a: "is_document dense_store (PRef 10) (Bare dense_cube)"
    unfolding is_document_def is_cube_def is_dimension_def is_dim_def is_category_def is_index_def
      is_value_def
    by (simp add: dense_store_def dense_cube_def geo_time_dimension_def obj_at_def enc_opt_def)
  show ?thesis
    using a decode_store_unchanged [OF a] by simp
qed

end
